theory Spec2Isabelle
  imports Complex_Main "HOL-Library.Multiset"
begin

section \<open>Data model of the textbook placer\<close>

text \<open>
  \<^verbatim>\<open>Component\<close> (the two-terminal netlist entry read by
  \<^verbatim>\<open>circuit_placer_textbook.py\<close>): reference, type tag and its two node names.
\<close>

record component =
  reference :: string
  comp_type :: string
  node1 :: string
  node2 :: string

record net =
  net_name :: string
  pins :: "(string \<times> int) list"

record circuit =
  components :: "component list"
  nets :: "net list"

text \<open>\<^verbatim>\<open>PlacedComponent\<close>: anchor, rotation in degrees and resolved pins.\<close>

record placed_component =
  p_reference :: string
  p_comp_type :: string
  pos_x :: int
  pos_y :: int
  rotation :: int
  pin_positions :: "(int \<times> int) list"

datatype topology = SERIES | PARALLEL | GENERIC

datatype py_error = TypeError | ZeroDivisionError | IndexError

definition COMPONENT_SPACING_H :: int where
  "COMPONENT_SPACING_H = 250"

definition COMPONENT_SPACING_V :: int where
  "COMPONENT_SPACING_V = 200"

definition RAIL_HEIGHT :: int where
  "RAIL_HEIGHT = 150"

text \<open>
  An entry of the component library (a JSON object). Python's \<^verbatim>\<open>if not comp_def\<close>
  skips an absent entry and an empty object; \<^verbatim>\<open>comp_def.get('pins', [])\<close> reads
  an absent pin list as empty. A pin is its offset \<^verbatim>\<open>(dx, dy)\<close>.
\<close>

record comp_def =
  other_keys :: bool
  pins_entry :: "(int \<times> int) list option"

type_synonym library = "string \<Rightarrow> comp_def option"

definition falsy :: "comp_def \<Rightarrow> bool" where
  "falsy d = (\<not> other_keys d \<and> pins_entry d = None)"

definition get_pins :: "comp_def \<Rightarrow> (int \<times> int) list" where
  "get_pins d = (case pins_entry d of None \<Rightarrow> [] | Some ps \<Rightarrow> ps)"

section \<open>Topology detection\<close>

definition sources :: "component list \<Rightarrow> component list" where
  "sources cs = filter (\<lambda>c. comp_type c \<in> set [''VDC'', ''VAC'']) cs"

definition passives :: "component list \<Rightarrow> component list" where
  "passives cs = filter (\<lambda>c. comp_type c \<notin> set [''VDC'', ''VAC'', ''GND'']) cs"

definition grounds :: "component list \<Rightarrow> component list" where
  "grounds cs = filter (\<lambda>c. comp_type c = ''GND'') cs"

text \<open>
  \<^verbatim>\<open>node_connections[node] = node_connections.get(node, 0) + 1\<close> on a dictionary
  kept in insertion order.
\<close>

fun dict_incr :: "(string \<times> int) list \<Rightarrow> string \<Rightarrow> (string \<times> int) list" where
  "dict_incr [] k = [(k, 1)]"
| "dict_incr ((k', v) # d) k =
     (if k' = k then (k', v + 1) # d else (k', v) # dict_incr d k)"

definition count_node :: "(string \<times> int) list \<Rightarrow> string \<Rightarrow> (string \<times> int) list" where
  "count_node d n = (if n = ''GND'' then d else dict_incr d n)"

definition node_connections :: "component list \<Rightarrow> (string \<times> int) list" where
  "node_connections cs =
     foldl (\<lambda>d c. foldl count_node d [node1 c, node2 c]) [] cs"

definition intermediate_nodes :: "component list \<Rightarrow> string list" where
  "intermediate_nodes cs =
     (let d = node_connections cs in filter (\<lambda>n. map_of d n = Some 2) (map fst d))"

definition node_pair :: "component \<Rightarrow> string set" where
  "node_pair p = {node1 p, node2 p}"

definition detect_topology :: "circuit \<Rightarrow> topology" where
  "detect_topology c =
     (let srcs = sources (components c); pas = passives (components c) in
      if srcs = [] \<or> pas = [] then GENERIC
      else if int (length (intermediate_nodes (components c))) = int (length pas) - 1
        then SERIES
      else if 2 \<le> length pas \<and> list_all (\<lambda>p. node_pair p = node_pair (hd pas)) (tl pas)
        then PARALLEL
      else GENERIC)"

section \<open>Placement\<close>

definition place :: "component \<Rightarrow> int \<Rightarrow> int \<Rightarrow> placed_component" where
  "place c px py =
     \<lparr>p_reference = reference c, p_comp_type = comp_type c,
      pos_x = px, pos_y = py, rotation = 0, pin_positions = []\<rparr>"

text \<open>
  \<^verbatim>\<open>set(passives)\<close>: the components are instances of a dataclass that defines
  equality and no hash, so building a set of them raises \<^verbatim>\<open>TypeError\<close> at the first
  element; the empty list needs no hash.
\<close>

definition py_set :: "component list \<Rightarrow> py_error + component list" where
  "py_set cs = (if cs = [] then Inr [] else Inl TypeError)"

text \<open>
  The \<^verbatim>\<open>for comp in remaining\<close> scan with its two \<^verbatim>\<open>break\<close>s: the first component
  touching the current node, and the node at its other end.
\<close>

fun find_connected :: "component list \<Rightarrow> string \<Rightarrow> (component \<times> string) option" where
  "find_connected [] cur = None"
| "find_connected (c # cs) cur =
     (if node1 c = cur then Some (c, node2 c)
      else if node2 c = cur then Some (c, node1 c)
      else find_connected cs cur)"

lemma find_connected_mem: "find_connected cs cur = Some (c, n) \<Longrightarrow> c \<in> set cs"
  by (induction cs) (auto split: if_splits)

function chain_loop :: "component list \<Rightarrow> string \<Rightarrow> component list \<Rightarrow> component list" where
  "chain_loop remaining cur chain =
     (if remaining = [] then chain
      else case find_connected remaining cur of
             Some (found, nxt) \<Rightarrow> chain_loop (remove1 found remaining) nxt (chain @ [found])
           | None \<Rightarrow> chain @ remaining)"
  by pat_completeness auto
termination
proof (relation "measure (\<lambda>(remaining, cur, chain). length remaining)")
  show "wf (measure (\<lambda>(remaining, cur, chain). length remaining))" by simp
next
  fix remaining :: "component list" and cur chain x2 found nxt
  assume ne: "remaining \<noteq> []" and f: "find_connected remaining cur = Some x2" and x: "(found, nxt) = x2"
  from f x have "found \<in> set remaining" using find_connected_mem by metis
  then have "length (remove1 found remaining) < length remaining"
    using ne by (simp add: length_remove1)
  then show "((remove1 found remaining, nxt, chain @ [found]), (remaining, cur, chain))
      \<in> measure (\<lambda>(remaining, cur, chain). length remaining)" by simp
qed

definition build_series_chain :: "component \<Rightarrow> component list \<Rightarrow> py_error + component list" where
  "build_series_chain source pas =
     (case py_set pas of
        Inl e \<Rightarrow> Inl e
      | Inr remaining \<Rightarrow> Inr (chain_loop remaining (node2 source) []))"

text \<open>The loop placing the chain: one component per step, \<open>x\<close> advanced by the spacing.\<close>

fun place_chain :: "component list \<Rightarrow> int \<Rightarrow> int \<Rightarrow> placed_component list \<times> int" where
  "place_chain [] px py = ([], px)"
| "place_chain (c # cs) px py =
     (let (ps, px') = place_chain cs (px + COMPONENT_SPACING_H) py
      in (place c px py # ps, px'))"

text \<open>
  Each placement routine extends \<^verbatim>\<open>self.placed_components\<close> and may stop with an
  exception; the result is the list as it then stands and the exception, if any.
\<close>

definition place_series :: "circuit \<Rightarrow> placed_component list \<Rightarrow> placed_component list \<times> py_error option" where
  "place_series c placed =
     (let srcs = sources (components c); pas = passives (components c);
          gnds = grounds (components c);
          px = 0; py = RAIL_HEIGHT;
          placed1 = (if srcs \<noteq> [] then placed @ [place (hd srcs) px py] else placed)
      in if srcs \<noteq> [] \<and> pas \<noteq> [] then
           (case build_series_chain (hd srcs) pas of
              Inl e \<Rightarrow> (placed1, Some e)
            | Inr chain \<Rightarrow>
                (let (ps, px') = place_chain chain (px + COMPONENT_SPACING_H) py;
                     placed2 = placed1 @ ps
                 in if gnds \<noteq> [] then
                      (placed2 @ [place (hd gnds) (px' - COMPONENT_SPACING_H) (py + COMPONENT_SPACING_V)], None)
                    else (placed2, None)))
         else if gnds \<noteq> [] then
           (placed1 @ [place (hd gnds) (px - COMPONENT_SPACING_H) (py + COMPONENT_SPACING_V)], None)
         else (placed1, None))"

fun place_branches :: "component list \<Rightarrow> int \<Rightarrow> int \<Rightarrow> placed_component list" where
  "place_branches [] px py = []"
| "place_branches (c # cs) px py = place c px py # place_branches cs px (py + COMPONENT_SPACING_V)"

definition place_parallel :: "circuit \<Rightarrow> placed_component list \<Rightarrow> placed_component list \<times> py_error option" where
  "place_parallel c placed =
     (let srcs = sources (components c); pas = passives (components c);
          gnds = grounds (components c);
          x_source = 0; x_passives = COMPONENT_SPACING_H * 2; y_start = RAIL_HEIGHT;
          placed1 = (if srcs \<noteq> [] then placed @ [place (hd srcs) x_source y_start] else placed);
          placed2 = placed1 @ place_branches pas x_passives y_start
      in if gnds \<noteq> [] then
           (placed2 @ [place (hd gnds) (x_passives + COMPONENT_SPACING_H)
                         (y_start + (int (length pas) - 1) * COMPONENT_SPACING_V div 2)], None)
         else (placed2, None))"

fun grid_loop :: "component list \<Rightarrow> int \<Rightarrow> int \<Rightarrow> placed_component list" where
  "grid_loop [] px py = []"
| "grid_loop (c # cs) px py =
     place c px py #
     (let px' = px + COMPONENT_SPACING_H in
      if px' > COMPONENT_SPACING_H * 4 then grid_loop cs 0 (py + COMPONENT_SPACING_V)
      else grid_loop cs px' py)"

definition place_generic_grid :: "circuit \<Rightarrow> placed_component list \<Rightarrow> placed_component list \<times> py_error option" where
  "place_generic_grid c placed = (placed @ grid_loop (components c) 0 0, None)"

section \<open>Pin resolution\<close>

text \<open>The \<^verbatim>\<open>if/elif\<close> chain on the rotation; any other value leaves the offset as it is.\<close>

definition apply_rotation :: "int \<Rightarrow> int \<times> int \<Rightarrow> int \<times> int" where
  "apply_rotation r p =
     (case p of (dx, dy) \<Rightarrow>
        if r = 90 then (- dy, dx)
        else if r = 180 then (- dx, - dy)
        else if r = 270 then (dy, - dx)
        else (dx, dy))"

definition resolve_pin :: "int \<Rightarrow> int \<Rightarrow> int \<Rightarrow> int \<times> int \<Rightarrow> int \<times> int" where
  "resolve_pin px py r p = (case apply_rotation r p of (dx, dy) \<Rightarrow> (px + dx, py + dy))"

text \<open>\<^verbatim>\<open>TextbookCircuitPlacer._calculate_all_pin_positions\<close>, for one placed component.\<close>

definition calculate_pins :: "library \<Rightarrow> placed_component \<Rightarrow> placed_component" where
  "calculate_pins lib p =
     (case lib (p_comp_type p) of
        None \<Rightarrow> p
      | Some d \<Rightarrow>
          if falsy d then p
          else p\<lparr>pin_positions := map (resolve_pin (pos_x p) (pos_y p) (rotation p)) (get_pins d)\<rparr>)"

definition calculate_all_pin_positions :: "library \<Rightarrow> placed_component list \<Rightarrow> placed_component list" where
  "calculate_all_pin_positions lib placed = map (calculate_pins lib) placed"

text \<open>\<^verbatim>\<open>CircuitPlacer._calculate_pin_positions\<close> of the earlier blocked placer.\<close>

definition calculate_pin_positions :: "(int \<times> int) list \<Rightarrow> int \<Rightarrow> int \<Rightarrow> int \<Rightarrow> (int \<times> int) list" where
  "calculate_pin_positions pins0 px py r = map (resolve_pin px py r) pins0"

text \<open>
  \<^verbatim>\<open>place_circuit\<close> up to pin resolution: detect, place by topology, resolve pins.
  An exception of the placement leaves the components placed so far without pins.
\<close>

definition place_circuit :: "library \<Rightarrow> circuit \<Rightarrow> placed_component list \<times> py_error option" where
  "place_circuit lib c =
     (let t = detect_topology c;
          (placed, err) =
            (if t = SERIES then place_series c []
             else if t = PARALLEL then place_parallel c []
             else place_generic_grid c [])
      in case err of
           Some e \<Rightarrow> (placed, Some e)
         | None \<Rightarrow> (calculate_all_pin_positions lib placed, None))"


section \<open>The rotations, as the specification words them\<close>

datatype rot = R0 | R90 | R180 | R270

fun degrees :: "rot \<Rightarrow> int" where
  "degrees R0 = 0"
| "degrees R90 = 90"
| "degrees R180 = 180"
| "degrees R270 = 270"

fun rotate_spec :: "rot \<Rightarrow> int \<times> int \<Rightarrow> int \<times> int" where
  "rotate_spec R0 (dx, dy) = (dx, dy)"
| "rotate_spec R90 (dx, dy) = (- dy, dx)"
| "rotate_spec R180 (dx, dy) = (- dx, - dy)"
| "rotate_spec R270 (dx, dy) = (dy, - dx)"

definition translate :: "int \<Rightarrow> int \<Rightarrow> int \<times> int \<Rightarrow> int \<times> int" where
  "translate px py p = (px + fst p, py + snd p)"

section \<open>Example inputs\<close>

definition mk_comp :: "string \<Rightarrow> string \<Rightarrow> string \<Rightarrow> string \<Rightarrow> component" where
  "mk_comp r t a b = \<lparr>reference = r, comp_type = t, node1 = a, node2 = b\<rparr>"

text \<open>The RC filter of the specification: V1 (VIN, GND), R1 (VIN, VOUT), C1 (VOUT, GND).\<close>

definition rc_filter :: circuit where
  "rc_filter =
     \<lparr>components = [mk_comp ''V1'' ''VDC'' ''VIN'' ''GND'',
                    mk_comp ''R1'' ''R'' ''VIN'' ''VOUT'',
                    mk_comp ''C1'' ''C'' ''VOUT'' ''GND''],
      nets = []\<rparr>"

text \<open>A source with two resistors across it.\<close>

definition divider :: circuit where
  "divider =
     \<lparr>components = [mk_comp ''V1'' ''VDC'' ''A'' ''GND'',
                    mk_comp ''R1'' ''R'' ''A'' ''GND'',
                    mk_comp ''R2'' ''R'' ''GND'' ''A''],
      nets = []\<rparr>"

definition lib0 :: library where
  "lib0 t = (if t = ''R'' then Some \<lparr>other_keys = True, pins_entry = Some [(-40, 0), (40, 0)]\<rparr>
             else None)"

section \<open>Pin resolution is exact\<close>

lemma resolve_pin_rot: "resolve_pin px py (degrees r) p = translate px py (rotate_spec r p)"
  by (cases r; cases p) (simp_all add: resolve_pin_def apply_rotation_def translate_def)

lemma apply_rotation_rot: "apply_rotation (degrees r) p = rotate_spec r p"
  by (cases r; cases p) (simp_all add: apply_rotation_def)

text \<open>
  C7. For a placed component with anchor \<open>(px, py)\<close> and a rotation of 0, 90, 180 or 270
  degrees, both pin resolvers (the textbook placer's and the blocked placer's) give, for
  every relative pin offset of the type definition, the anchor plus the rotated offset,
  where the rotation is the integer transform of the specification; four successive
  rotations by 90 degrees give back the offset.
\<close>

theorem pin_positions_rotate_translate:
  "calculate_pin_positions ps px py (degrees r) = map (\<lambda>p. translate px py (rotate_spec r p)) ps
   \<and> (lib (p_comp_type pc) = Some d \<and> \<not> falsy d \<and> rotation pc = degrees r \<longrightarrow>
        pin_positions (calculate_pins lib pc) =
          map (\<lambda>p. translate (pos_x pc) (pos_y pc) (rotate_spec r p)) (get_pins d))
   \<and> apply_rotation 90 (apply_rotation 90 (apply_rotation 90 (apply_rotation 90 q))) = q
   \<and> rotate_spec R90 (rotate_spec R90 (rotate_spec R90 (rotate_spec R90 q))) = q"
proof -
  have a: "calculate_pin_positions ps px py (degrees r) = map (\<lambda>p. translate px py (rotate_spec r p)) ps"
    by (simp add: calculate_pin_positions_def resolve_pin_rot)
  have b: "lib (p_comp_type pc) = Some d \<and> \<not> falsy d \<and> rotation pc = degrees r \<longrightarrow>
        pin_positions (calculate_pins lib pc) =
          map (\<lambda>p. translate (pos_x pc) (pos_y pc) (rotate_spec r p)) (get_pins d)"
    by (simp add: calculate_pins_def resolve_pin_rot)
  have c: "apply_rotation 90 (apply_rotation 90 (apply_rotation 90 (apply_rotation 90 q))) = q"
    by (cases q) (simp add: apply_rotation_def)
  have d: "rotate_spec R90 (rotate_spec R90 (rotate_spec R90 (rotate_spec R90 q))) = q"
    by (cases q) simp
  from a b c d show ?thesis by blast
qed

theorem pin_positions_rotate_translate_witness:
  "pin_positions (calculate_pins lib0
      \<lparr>p_reference = ''R1'', p_comp_type = ''R'', pos_x = 250, pos_y = 150, rotation = 90,
       pin_positions = []\<rparr>) = [(250, 110), (250, 190)]"
proof -
  let ?pc = "\<lparr>p_reference = ''R1'', p_comp_type = ''R'', pos_x = 250, pos_y = 150, rotation = 90,
       pin_positions = []\<rparr>"
  let ?d = "\<lparr>other_keys = True, pins_entry = Some [(-40, 0), (40, 0)]\<rparr>"
  have h: "lib0 (p_comp_type ?pc) = Some ?d \<and> \<not> falsy ?d \<and> rotation ?pc = degrees R90"
    by (simp add: lib0_def falsy_def)
  from pin_positions_rotate_translate [of "[]" 0 0 R90 lib0 ?pc ?d "(0, 0)"] h
  have "pin_positions (calculate_pins lib0 ?pc) =
          map (\<lambda>p. translate (pos_x ?pc) (pos_y ?pc) (rotate_spec R90 p)) (get_pins ?d)"
    by blast
  then show ?thesis by (simp add: get_pins_def translate_def)
qed

section \<open>Every placed component has rotation 0\<close>













section \<open>Topology classification\<close>


definition terminals :: "component list \<Rightarrow> string list" where
  "terminals cs = concat (map (\<lambda>c. [node1 c, node2 c]) cs)"

definition degree :: "component list \<Rightarrow> string \<Rightarrow> nat" where
  "degree cs n = count_list (terminals cs) n"

definition degree2_nodes :: "component list \<Rightarrow> string list" where
  "degree2_nodes cs = filter (\<lambda>n. n \<noteq> ''GND'' \<and> degree cs n = 2) (remdups (terminals cs))"

lemma foldl_nested: "foldl (\<lambda>d c. foldl f d (g c)) d cs = foldl f d (concat (map g cs))"
  by (induction cs arbitrary: d) simp_all

lemma node_connections_terminals: "node_connections cs = foldl count_node [] (terminals cs)"
  unfolding node_connections_def terminals_def by (rule foldl_nested)

lemma map_of_dict_incr:
  "map_of (dict_incr d k) = (map_of d)(k \<mapsto> (case map_of d k of None \<Rightarrow> 1 | Some v \<Rightarrow> v + 1))"
  by (induction d k rule: dict_incr.induct) (auto simp: fun_eq_iff)

lemma keys_dict_incr: "set (map fst (dict_incr d k)) = insert k (set (map fst d))"
  by (induction d k rule: dict_incr.induct) auto

lemma keys_mem: "(a, b) \<in> set (dict_incr d k) \<Longrightarrow> a = k \<or> a \<in> fst ` set d"
  by (induction d k rule: dict_incr.induct) (auto split: if_splits simp: rev_image_eqI)

lemma distinct_dict_incr: "distinct (map fst d) \<Longrightarrow> distinct (map fst (dict_incr d k))"
  by (induction d k rule: dict_incr.induct) (auto dest: keys_mem)

definition dict_ok :: "(string \<times> int) list \<Rightarrow> string list \<Rightarrow> bool" where
  "dict_ok d ts = (distinct (map fst d) \<and>
     (\<forall>n. map_of d n = (if n \<noteq> ''GND'' \<and> n \<in> set ts then Some (int (count_list ts n)) else None)))"

lemma dict_ok_step: "dict_ok d ts \<Longrightarrow> dict_ok (count_node d t) (ts @ [t])"
  unfolding dict_ok_def count_node_def
  by (auto simp: map_of_dict_incr distinct_dict_incr count_list_0_iff)

lemma dict_ok_foldl: "dict_ok d ts \<Longrightarrow> dict_ok (foldl count_node d us) (ts @ us)"
proof (induction us arbitrary: d ts)
  case Nil then show ?case by simp
next
  case (Cons u us)
  from Cons.IH [OF dict_ok_step [OF Cons.prems, of u]] show ?case by simp
qed

lemma dict_ok_node_connections: "dict_ok (node_connections cs) (terminals cs)"
  using dict_ok_foldl [of "[]" "[]" "terminals cs"]
  by (simp add: node_connections_terminals dict_ok_def)

lemma length_intermediate_nodes:
  "length (intermediate_nodes cs) = length (degree2_nodes cs)"
proof -
  let ?d = "node_connections cs" and ?ts = "terminals cs"
  have ok: "dict_ok ?d ?ts" by (rule dict_ok_node_connections)
  then have dist: "distinct (map fst ?d)" by (simp add: dict_ok_def)
  have m: "\<And>n. map_of ?d n = Some 2 \<longleftrightarrow> n \<noteq> ''GND'' \<and> n \<in> set ?ts \<and> count_list ?ts n = 2"
    using ok by (auto simp: dict_ok_def)
  have "\<And>n. n \<in> set (map fst ?d) \<longleftrightarrow> map_of ?d n \<noteq> None"
    by (simp add: map_of_eq_None_iff)
  then have keys: "set (map fst ?d) = {n. n \<noteq> ''GND'' \<and> n \<in> set ?ts}"
    using ok unfolding dict_ok_def by (auto split: if_splits)
  have "distinct (intermediate_nodes cs)"
    using dist unfolding intermediate_nodes_def Let_def by (rule distinct_filter)
  then have "length (intermediate_nodes cs) = card (set (intermediate_nodes cs))"
    by (rule distinct_card [symmetric])
  also have "set (intermediate_nodes cs) = {n. n \<noteq> ''GND'' \<and> n \<in> set ?ts \<and> count_list ?ts n = 2}"
    using keys m by (auto simp: intermediate_nodes_def Let_def)
  also have "\<dots> = set (degree2_nodes cs)"
    by (auto simp: degree2_nodes_def degree_def)
  also have "card (set (degree2_nodes cs)) = length (degree2_nodes cs)"
    by (rule distinct_card) (simp add: degree2_nodes_def)
  finally show ?thesis .
qed


definition all_same_pair :: "component list \<Rightarrow> bool" where
  "all_same_pair pas = (\<forall>p \<in> set pas. \<forall>q \<in> set pas. node_pair p = node_pair q)"

definition spec_topology :: "circuit \<Rightarrow> topology" where
  "spec_topology c =
     (let cs = components c in
      if sources cs = [] \<or> passives cs = [] then GENERIC
      else if int (length (degree2_nodes cs)) = int (length (passives cs)) - 1 then SERIES
      else if all_same_pair (passives cs) then PARALLEL
      else GENERIC)"

definition single_load :: circuit where
  "single_load =
     \<lparr>components = [mk_comp ''V1'' ''VDC'' ''VIN'' ''GND'',
                    mk_comp ''R1'' ''R'' ''VIN'' ''GND''],
      nets = []\<rparr>"

lemma list_all_hd_tl:
  "pas \<noteq> [] \<Longrightarrow> list_all (\<lambda>p. node_pair p = node_pair (hd pas)) (tl pas) = all_same_pair pas"
  by (cases pas) (auto simp: list_all_iff all_same_pair_def)

lemma detect_topology_char:
  "detect_topology c =
     (let cs = components c in
      if sources cs = [] \<or> passives cs = [] then GENERIC
      else if int (length (degree2_nodes cs)) = int (length (passives cs)) - 1 then SERIES
      else if 2 \<le> length (passives cs) \<and> all_same_pair (passives cs) then PARALLEL
      else GENERIC)"
  by (auto simp: detect_topology_def Let_def length_intermediate_nodes list_all_hd_tl)

lemma mset_concat_map_cong:
  "mset xs = mset ys \<Longrightarrow> mset (concat (map f xs)) = mset (concat (map f ys))"
proof -
  assume e: "mset xs = mset ys"
  have "\<And>zs. mset (concat (map f zs)) = sum_mset (image_mset (\<lambda>z. mset (f z)) (mset zs))"
    by (induct_tac zs) simp_all
  then show ?thesis using e by simp
qed

lemma degree2_card:
  "length (degree2_nodes cs) =
     card {n. n \<noteq> ''GND'' \<and> count (mset (terminals cs)) n = 2}"
proof -
  have "length (degree2_nodes cs) = card (set (degree2_nodes cs))"
    by (rule distinct_card [symmetric]) (simp add: degree2_nodes_def)
  also have "set (degree2_nodes cs) = {n. n \<noteq> ''GND'' \<and> count (mset (terminals cs)) n = 2}"
  proof -
    have "\<And>n. count_list (terminals cs) n = 2 \<Longrightarrow> n \<in> set (terminals cs)"
      by (metis count_list_0_iff zero_neq_numeral)
    then show ?thesis
      by (auto simp: degree2_nodes_def degree_def count_mset)
  qed
  finally show ?thesis .
qed

lemma detect_topology_perm:
  assumes "mset (components c') = mset (components c)"
  shows "detect_topology c' = detect_topology c"
proof -
  let ?cs = "components c" and ?cs' = "components c'"
  have s: "set ?cs' = set ?cs" using assms by (rule mset_eq_setD)
  have 1: "(sources ?cs' = []) = (sources ?cs = [])"
    using s by (simp add: sources_def filter_empty_conv)
  have m: "mset (passives ?cs') = mset (passives ?cs)"
    using assms by (simp add: passives_def)
  have 2: "length (passives ?cs') = length (passives ?cs)"
    using m by (rule mset_eq_length)
  have 3: "set (passives ?cs') = set (passives ?cs)"
    using m by (rule mset_eq_setD)
  have "mset (terminals ?cs') = mset (terminals ?cs)"
    unfolding terminals_def using assms by (rule mset_concat_map_cong)
  then have 4: "length (degree2_nodes ?cs') = length (degree2_nodes ?cs)"
    by (simp add: degree2_card)
  have 5: "all_same_pair (passives ?cs') = all_same_pair (passives ?cs)"
    using 3 by (simp add: all_same_pair_def)
  have 6: "(passives ?cs' = []) = (passives ?cs = [])"
    using 2 by (metis length_0_conv)
  show ?thesis
    unfolding detect_topology_char Let_def using 1 2 4 5 6 by simp
qed

text \<open>
  C4 (as amended). With at least one source and one passive, the classifier returns SERIES
  exactly when the number of non-ground nodes touched by exactly two component terminals
  is the number of passives minus one; otherwise PARALLEL exactly when there are at least
  two passives and all of them have the same unordered pair of terminal nodes; otherwise
  GENERIC. Without a source or without a passive the tag is GENERIC.
\<close>

theorem topology_classification:
  "detect_topology c =
     (let cs = components c in
      if sources cs = [] \<or> passives cs = [] then GENERIC
      else if int (length (degree2_nodes cs)) = int (length (passives cs)) - 1 then SERIES
      else if 2 \<le> length (passives cs) \<and>
              (\<forall>p \<in> set (passives cs). \<forall>q \<in> set (passives cs). node_pair p = node_pair q)
        then PARALLEL
      else GENERIC)"
  by (simp add: detect_topology_char all_same_pair_def Let_def)

theorem topology_classification_witness:
  "detect_topology divider = PARALLEL"
  using topology_classification [of divider]
  by (simp add: divider_def mk_comp_def sources_def passives_def degree2_nodes_def degree_def
      terminals_def node_pair_def Let_def doubleton_eq_iff)

text \<open>
  The claim as first stated, without the guard on the number of passives, fails for a
  source with a single load: the one passive trivially shares its node pair with every
  passive, and the classifier answers GENERIC.
\<close>

theorem topology_single_passive_counterexample:
  "detect_topology single_load = GENERIC \<and> spec_topology single_load = PARALLEL"
  by (simp add: detect_topology_def spec_topology_def single_load_def mk_comp_def sources_def
        passives_def intermediate_nodes_def node_connections_def count_node_def
        node_pair_def Let_def degree2_nodes_def degree_def terminals_def all_same_pair_def)

text \<open>
  C8. The tag does not depend on the order in which the components or the nets are
  declared: a circuit whose component list and net list are permutations of another's
  gets the same tag.
\<close>

theorem topology_order_independent:
  "mset (components c') = mset (components c) \<and> mset (nets c') = mset (nets c)
   \<longrightarrow> detect_topology c' = detect_topology c"
  using detect_topology_perm by blast

theorem topology_order_independent_witness:
  "detect_topology
     \<lparr>components = [mk_comp ''R2'' ''R'' ''GND'' ''A'', mk_comp ''V1'' ''VDC'' ''A'' ''GND'',
                    mk_comp ''R1'' ''R'' ''A'' ''GND''], nets = []\<rparr>
   = detect_topology divider"
proof -
  let ?c' = "\<lparr>components = [mk_comp ''R2'' ''R'' ''GND'' ''A'', mk_comp ''V1'' ''VDC'' ''A'' ''GND'',
                    mk_comp ''R1'' ''R'' ''A'' ''GND''], nets = []\<rparr>"
  have "mset (components ?c') = mset (components divider) \<and> mset (nets ?c') = mset (nets divider)"
    by (simp add: divider_def)
  with topology_order_independent [of ?c' divider] show ?thesis by blast
qed


section \<open>The generic grid and the blocked placer\<close>


definition anchor :: "placed_component \<Rightarrow> int \<times> int" where
  "anchor p = (pos_x p, pos_y p)"

definition grid_positions :: "int \<Rightarrow> int \<Rightarrow> nat \<Rightarrow> nat \<Rightarrow> (int \<times> int) list" where
  "grid_positions sx sy cols n = map (\<lambda>i. (int (i mod cols) * sx, int (i div cols) * sy)) [0..<n]"

definition spec_cols :: "nat \<Rightarrow> nat" where
  "spec_cols n = nat \<lceil>sqrt (1.5 * real n)\<rceil>"

lemma ceiling_sqrt_eq:
  assumes "(real k)\<^sup>2 < a" "a \<le> (real (Suc k))\<^sup>2"
  shows "nat \<lceil>sqrt a\<rceil> = Suc k"
proof -
  have "real k < sqrt a" using assms(1) by (simp add: real_less_rsqrt)
  moreover have "sqrt a \<le> real (Suc k)" using assms(2) by (simp add: real_le_lsqrt)
  ultimately have "\<lceil>sqrt a\<rceil> = int (Suc k)"
    by (intro ceiling_unique) simp_all
  then show ?thesis by simp
qed

lemma spec_cols_small: "spec_cols 1 = 2" "spec_cols 2 = 2" "spec_cols 3 = 3" "spec_cols 4 = 3"
  "spec_cols 5 = 3" "spec_cols 6 = 3"
  unfolding spec_cols_def
  using ceiling_sqrt_eq [of 1 "1.5 * real 1"] ceiling_sqrt_eq [of 1 "1.5 * real 2"]
    ceiling_sqrt_eq [of 2 "1.5 * real 3"] ceiling_sqrt_eq [of 2 "1.5 * real 4"]
    ceiling_sqrt_eq [of 2 "1.5 * real 5"] ceiling_sqrt_eq [of 2 "1.5 * real 6"]
  by (simp_all add: power2_eq_square numeral_3_eq_3 numeral_2_eq_2)

lemma grid_loop_positions:
  "k < 5 \<Longrightarrow>
   map anchor (grid_loop cs (int k * COMPONENT_SPACING_H) (int r * COMPONENT_SPACING_V)) =
   map (\<lambda>i. (int ((i + k) mod 5) * COMPONENT_SPACING_H, int (r + (i + k) div 5) * COMPONENT_SPACING_V))
     [0..<length cs]"
proof (induction cs arbitrary: k r)
  case Nil
  then show ?case by simp
next
  case (Cons c cs)
  have shift: "\<And>f. map f [0..<Suc (length cs)] = f 0 # map (\<lambda>i. f (Suc i)) [0..<length cs]"
    by (simp add: upt_rec [of 0] map_Suc_upt [symmetric] del: upt_Suc)
  show ?case
  proof (cases "k = 4")
    case True
    have "grid_loop (c # cs) (int k * COMPONENT_SPACING_H) (int r * COMPONENT_SPACING_V) =
        place c (int k * COMPONENT_SPACING_H) (int r * COMPONENT_SPACING_V) #
        grid_loop cs (int 0 * COMPONENT_SPACING_H) (int (Suc r) * COMPONENT_SPACING_V)"
      using True by (simp add: COMPONENT_SPACING_H_def Let_def algebra_simps)
    moreover have "\<And>i. (Suc i + 4) mod 5 = (i + 0) mod 5 \<and> r + (Suc i + 4) div 5 = Suc r + (i + 0) div 5"
      by (simp add: mod_Suc div_Suc)
    ultimately show ?thesis
      using Cons.IH [of 0 "Suc r"] True
      by (simp add: shift anchor_def place_def del: upt_Suc of_nat_Suc)
  next
    case False
    with Cons.prems have k: "Suc k < 5" by simp
    have "grid_loop (c # cs) (int k * COMPONENT_SPACING_H) (int r * COMPONENT_SPACING_V) =
        place c (int k * COMPONENT_SPACING_H) (int r * COMPONENT_SPACING_V) #
        grid_loop cs (int (Suc k) * COMPONENT_SPACING_H) (int r * COMPONENT_SPACING_V)"
      using k by (simp add: COMPONENT_SPACING_H_def Let_def algebra_simps)
    then show ?thesis
      using Cons.IH [OF k, of r] Cons.prems
      by (simp add: shift anchor_def place_def del: upt_Suc of_nat_Suc)
  qed
qed

lemma generic_grid_five:
  "map anchor (fst (place_generic_grid c [])) =
     grid_positions COMPONENT_SPACING_H COMPONENT_SPACING_V 5 (length (components c))"
  using grid_loop_positions [of 0 "components c" 0]
  by (simp add: place_generic_grid_def grid_positions_def)


record netlist_component =
  nc_reference :: string
  component_type :: string

definition COMPONENT_SPACING_X :: int where
  "COMPONENT_SPACING_X = 200"

definition COMPONENT_SPACING_Y :: int where
  "COMPONENT_SPACING_Y = 200"

definition blocked_cols :: "nat \<Rightarrow> nat" where
  "blocked_cols n =
     (if n \<le> 3 then n else if n \<le> 6 then 3 else nat \<lceil>sqrt (real n * 1.5)\<rceil>)"

definition determine_rotation :: "netlist_component \<Rightarrow> nat \<Rightarrow> nat \<Rightarrow> int" where
  "determine_rotation cmp col total_cols =
     (if component_type cmp \<in> set [''VDC'', ''VAC'', ''IDC''] \<and> col = 0 then 0
      else if component_type cmp = ''GND'' then 270
      else if component_type cmp = ''OPAMP'' then 0
      else 0)"

definition place_blocked :: "library \<Rightarrow> nat \<Rightarrow> nat \<times> netlist_component \<Rightarrow> placed_component" where
  "place_blocked lib cols ic =
     (case ic of (idx, cmp) \<Rightarrow>
        let row = idx div cols; col = idx mod cols;
            px = int col * COMPONENT_SPACING_X; py = int row * COMPONENT_SPACING_Y;
            rot = determine_rotation cmp col cols;
            pins0 = (case lib (component_type cmp) of None \<Rightarrow> [] | Some d \<Rightarrow> get_pins d)
        in \<lparr>p_reference = nc_reference cmp, p_comp_type = component_type cmp,
            pos_x = px, pos_y = py, rotation = rot,
            pin_positions = calculate_pin_positions pins0 px py rot\<rparr>)"

definition place_components_blocked :: "library \<Rightarrow> netlist_component list \<Rightarrow> placed_component list" where
  "place_components_blocked lib comps =
     map (place_blocked lib (blocked_cols (length comps))) (enumerate 0 comps)"

lemma anchor_place_blocked:
  "anchor (place_blocked lib k ic) =
     (int (fst ic mod k) * COMPONENT_SPACING_X, int (fst ic div k) * COMPONENT_SPACING_Y)"
  by (cases ic) (simp add: anchor_def place_blocked_def Let_def)

lemma map_fst_zip_fun:
  assumes "length js = length xs"
  shows "map (\<lambda>x. g (fst x)) (zip js xs) = map g js"
proof -
  have "map (\<lambda>x. g (fst x)) (zip js xs) = map g (map fst (zip js xs))"
    by (simp add: comp_def)
  then show ?thesis using assms by simp
qed

lemma blocked_positions:
  "map anchor (place_components_blocked lib comps) =
     grid_positions COMPONENT_SPACING_X COMPONENT_SPACING_Y (blocked_cols (length comps)) (length comps)"
proof -
  let ?g = "\<lambda>i. (int (i mod blocked_cols (length comps)) * COMPONENT_SPACING_X,
                 int (i div blocked_cols (length comps)) * COMPONENT_SPACING_Y)"
  have "map anchor (place_components_blocked lib comps) =
        map (\<lambda>x. ?g (fst x)) (zip [0..<length comps] comps)"
    by (simp add: place_components_blocked_def enumerate_eq_zip anchor_place_blocked comp_def)
  also have "\<dots> = map ?g [0..<length comps]"
    by (rule map_fst_zip_fun) simp
  finally show ?thesis by (simp add: grid_positions_def)
qed

lemma grid_positions_one:
  "grid_positions sx sy 1 1 = [(0, 0)]" "grid_positions sx sy 2 1 = [(0, 0)]"
  by (simp_all add: grid_positions_def)

lemma blocked_cols_spec:
  "grid_positions sx sy (blocked_cols n) n = grid_positions sx sy (spec_cols n) n"
proof -
  consider "n = 0" | "n = 1" | "n = 2" | "n = 3" | "n = 4" | "n = 5" | "n = 6" | "6 < n"
    by linarith
  then show ?thesis
  proof cases
    case 1 then show ?thesis by (simp add: grid_positions_def)
  next
    case 2
    have "blocked_cols 1 = 1" by (simp add: blocked_cols_def)
    then show ?thesis
      unfolding 2 by (simp only: spec_cols_small grid_positions_one)
  next
    case 3
    have "blocked_cols 2 = 2" by (simp add: blocked_cols_def)
    then show ?thesis unfolding 3 by (simp only: spec_cols_small)
  next
    case 4
    have "blocked_cols 3 = 3" by (simp add: blocked_cols_def)
    then show ?thesis unfolding 4 by (simp only: spec_cols_small)
  next
    case 5
    have "blocked_cols 4 = 3" by (simp add: blocked_cols_def)
    then show ?thesis unfolding 5 by (simp only: spec_cols_small)
  next
    case 6
    have "blocked_cols 5 = 3" by (simp add: blocked_cols_def)
    then show ?thesis unfolding 6 by (simp only: spec_cols_small)
  next
    case 7
    have "blocked_cols 6 = 3" by (simp add: blocked_cols_def)
    then show ?thesis unfolding 7 by (simp only: spec_cols_small)
  next
    case 8
    then show ?thesis by (simp add: blocked_cols_def spec_cols_def mult.commute)
  qed
qed

definition bridge :: circuit where
  "bridge =
     \<lparr>components = [mk_comp ''V1'' ''VDC'' ''A'' ''GND'',
                    mk_comp ''R1'' ''R'' ''A'' ''B'',
                    mk_comp ''R2'' ''R'' ''B'' ''C'',
                    mk_comp ''R3'' ''R'' ''C'' ''GND'',
                    mk_comp ''R4'' ''R'' ''B'' ''GND'',
                    mk_comp ''R5'' ''R'' ''C'' ''A''],
      nets = []\<rparr>"

lemma anchor_calculate_pins: "anchor (calculate_pins lib p) = anchor p"
  by (simp add: calculate_pins_def anchor_def split: option.splits)

lemma bridge_generic: "detect_topology bridge = GENERIC"
  by (simp add: detect_topology_def bridge_def mk_comp_def sources_def
        passives_def intermediate_nodes_def node_connections_def count_node_def
        node_pair_def Let_def doubleton_eq_iff)

text \<open>
  C6 (as amended). For a circuit tagged GENERIC the textbook placer lays the components
  out row by row with five components per row, whatever their number; it is the blocked
  placer, which has no topology tag, whose row-major grid has
  \<open>ceil (sqrt (1.5 * n))\<close> components per row for \<open>n\<close> components.
\<close>

theorem generic_grid_layout:
  "(detect_topology c = GENERIC \<longrightarrow>
      map anchor (fst (place_circuit lib c)) =
        grid_positions COMPONENT_SPACING_H COMPONENT_SPACING_V 5 (length (components c)))
   \<and> map anchor (place_components_blocked lib comps) =
        grid_positions COMPONENT_SPACING_X COMPONENT_SPACING_Y (spec_cols (length comps)) (length comps)"
proof -
  have "map anchor (fst (place_circuit lib c)) =
        grid_positions COMPONENT_SPACING_H COMPONENT_SPACING_V 5 (length (components c))"
    if "detect_topology c = GENERIC"
    using that generic_grid_five [of c]
    by (simp add: place_circuit_def place_generic_grid_def calculate_all_pin_positions_def
        anchor_calculate_pins comp_def)
  then show ?thesis
    by (simp add: blocked_positions blocked_cols_spec)
qed

theorem generic_grid_layout_witness:
  "map anchor (fst (place_circuit lib0 bridge)) =
     grid_positions COMPONENT_SPACING_H COMPONENT_SPACING_V 5 6"
proof -
  have len: "length (components bridge) = 6" by (simp add: bridge_def)
  from generic_grid_layout [of bridge lib0 "[]"] bridge_generic
  show ?thesis by (simp only: len)
qed

text \<open>
  The claim as first stated fails on the bridge network of six components, which is
  tagged GENERIC: the fourth component continues the first row, where a grid with
  \<open>ceil (sqrt 9) = 3\<close> components per row starts the second.
\<close>

theorem generic_grid_counterexample:
  "detect_topology bridge = GENERIC
   \<and> map anchor (fst (place_circuit lib0 bridge)) =
       [(0, 0), (250, 0), (500, 0), (750, 0), (1000, 0), (0, 200)]
   \<and> grid_positions COMPONENT_SPACING_H COMPONENT_SPACING_V (spec_cols (length (components bridge)))
         (length (components bridge)) =
       [(0, 0), (250, 0), (500, 0), (0, 200), (250, 200), (500, 200)]"
proof -
  have a: "map anchor (fst (place_circuit lib0 bridge)) =
       [(0, 0), (250, 0), (500, 0), (750, 0), (1000, 0), (0, 200)]"
    by (simp add: place_circuit_def bridge_generic place_generic_grid_def
        calculate_all_pin_positions_def anchor_calculate_pins comp_def)
       (simp add: bridge_def anchor_def place_def COMPONENT_SPACING_H_def COMPONENT_SPACING_V_def)
  have len: "length (components bridge) = 6" by (simp add: bridge_def)
  have "grid_positions COMPONENT_SPACING_H COMPONENT_SPACING_V 3 6 =
       [(0, 0), (250, 0), (500, 0), (0, 200), (250, 200), (500, 200)]"
    by code_simp
  then have b: "grid_positions COMPONENT_SPACING_H COMPONENT_SPACING_V (spec_cols (length (components bridge)))
         (length (components bridge)) =
       [(0, 0), (250, 0), (500, 0), (0, 200), (250, 200), (500, 200)]"
    by (simp only: len spec_cols_small)
  from bridge_generic a b show ?thesis by blast
qed

section \<open>Series placement\<close>

text \<open>A source and two resistors in a chain from the source's ground node.\<close>

definition open_chain :: circuit where
  "open_chain =
     \<lparr>components = [mk_comp ''V1'' ''VDC'' ''VIN'' ''GND'',
                    mk_comp ''R1'' ''R'' ''GND'' ''N1'',
                    mk_comp ''R2'' ''R'' ''N1'' ''N2''],
      nets = []\<rparr>"

lemma place_chain_positions:
  "map anchor (fst (place_chain cs px py)) =
     map (\<lambda>k. (px + int k * COMPONENT_SPACING_H, py)) [0..<length cs]
   \<and> snd (place_chain cs px py) = px + int (length cs) * COMPONENT_SPACING_H"
proof (induction cs arbitrary: px)
  case Nil
  then show ?case by simp
next
  case (Cons c cs)
  have shift: "\<And>f. map f [0..<Suc (length cs)] = f 0 # map (\<lambda>i. f (Suc i)) [0..<length cs]"
    by (simp add: upt_rec [of 0] map_Suc_upt [symmetric] del: upt_Suc)
  from Cons [of "px + COMPONENT_SPACING_H"] show ?case
    by (simp add: shift split_def anchor_def place_def algebra_simps del: upt_Suc)
qed

text \<open>
  C5. On a circuit tagged SERIES the series strategy places the source at \<open>x = 0\<close> and
  then stops with \<^verbatim>\<open>TypeError\<close> when it builds the set of passives: no chain member
  and no ground is placed.
\<close>

theorem series_placement_raises:
  "detect_topology open_chain = SERIES
   \<and> place_circuit lib0 open_chain =
       ([place (mk_comp ''V1'' ''VDC'' ''VIN'' ''GND'') 0 150], Some TypeError)"
  by (simp add: place_circuit_def detect_topology_def open_chain_def mk_comp_def sources_def
      passives_def grounds_def intermediate_nodes_def node_connections_def count_node_def
      node_pair_def place_series_def build_series_chain_def py_set_def RAIL_HEIGHT_def Let_def)


section \<open>The Manhattan router\<close>

type_synonym point = "int \<times> int"


subsection \<open>The binary heap of Python's heapq\<close>

text \<open>
  \<^verbatim>\<open>heapq.heappush\<close> and \<^verbatim>\<open>heapq.heappop\<close> on a list, with their helpers
  \<^verbatim>\<open>_siftdown\<close> and \<^verbatim>\<open>_siftup\<close>, over the element type's \<open><\<close>.
\<close>

function siftdown :: "('a \<Rightarrow> 'a \<Rightarrow> bool) \<Rightarrow> 'a list \<Rightarrow> 'a \<Rightarrow> nat \<Rightarrow> nat \<Rightarrow> 'a list" where
  "siftdown lt heap newitem startpos pos =
     (if pos > startpos then
        (let parentpos = (pos - 1) div 2; parent = heap ! parentpos in
         if lt newitem parent then siftdown lt (heap[pos := parent]) newitem startpos parentpos
         else heap[pos := newitem])
      else heap[pos := newitem])"
  by pat_completeness auto
termination
  by (relation "measure (\<lambda>(lt, heap, newitem, startpos, pos). pos)") auto

function siftup_loop :: "('a \<Rightarrow> 'a \<Rightarrow> bool) \<Rightarrow> 'a list \<Rightarrow> nat \<Rightarrow> 'a list \<times> nat" where
  "siftup_loop lt heap pos =
     (let endpos = length heap; childpos = 2 * pos + 1 in
      if childpos < endpos then
        (let rightpos = childpos + 1;
             childpos' = (if rightpos < endpos \<and> \<not> lt (heap ! childpos) (heap ! rightpos)
                          then rightpos else childpos)
         in siftup_loop lt (heap[pos := heap ! childpos']) childpos')
      else (heap, pos))"
  by pat_completeness auto
termination
  by (relation "measure (\<lambda>(lt, heap, pos). length heap - pos)") (auto simp: Let_def)

declare siftdown.simps [simp del] siftup_loop.simps [simp del]

definition siftup :: "('a \<Rightarrow> 'a \<Rightarrow> bool) \<Rightarrow> 'a list \<Rightarrow> nat \<Rightarrow> 'a list" where
  "siftup lt heap pos =
     (let newitem = heap ! pos; (heap', pos') = siftup_loop lt heap pos
      in siftdown lt heap' newitem pos pos')"

definition heappush :: "('a \<Rightarrow> 'a \<Rightarrow> bool) \<Rightarrow> 'a list \<Rightarrow> 'a \<Rightarrow> 'a list" where
  "heappush lt heap item = siftdown lt (heap @ [item]) item 0 (length heap)"

definition heappop :: "('a \<Rightarrow> 'a \<Rightarrow> bool) \<Rightarrow> 'a list \<Rightarrow> 'a \<times> 'a list" where
  "heappop lt heap =
     (let lastelt = last heap; heap' = butlast heap in
      if heap' \<noteq> [] then (heap' ! 0, siftup lt (heap'[0 := lastelt]) 0)
      else (lastelt, []))"

lemma length_siftdown [simp]: "length (siftdown lt heap newitem startpos pos) = length heap"
  by (induction lt heap newitem startpos pos rule: siftdown.induct)
     (subst siftdown.simps, simp add: Let_def)

lemma length_siftup_loop [simp]: "length (fst (siftup_loop lt heap pos)) = length heap"
  by (induction lt heap pos rule: siftup_loop.induct)
     (subst siftup_loop.simps, simp add: Let_def)

lemma length_siftup [simp]: "length (siftup lt heap pos) = length heap"
  by (simp add: siftup_def Let_def split_def)

lemma length_heappush [simp]: "length (heappush lt heap item) = Suc (length heap)"
  by (simp add: heappush_def)

lemma length_heappop [simp]: "length (snd (heappop lt heap)) = length heap - 1"
  by (cases heap rule: rev_cases) (simp_all add: heappop_def Let_def)

subsection \<open>A* on the grid\<close>

text \<open>
  \<^verbatim>\<open>Node\<close> is ordered by \<^verbatim>\<open>f_score\<close> alone. The costs 1, 100 and 0.5 are
  rationals. The search loop has no bound in the source: it is a partial function, and
  \<open>None\<close> stands for a search that never returns.
\<close>

datatype node = Node (f_score: rat) (position: point) (g_score: rat) (parent: "node option")

definition node_lt :: "node \<Rightarrow> node \<Rightarrow> bool" where
  "node_lt a b = (f_score a < f_score b)"

definition get_neighbors :: "point \<Rightarrow> point list" where
  "get_neighbors pos = (case pos of (x, y) \<Rightarrow> [(x + 1, y), (x - 1, y), (x, y + 1), (x, y - 1)])"

definition heuristic :: "point \<Rightarrow> point \<Rightarrow> rat" where
  "heuristic pos goal = of_int (\<bar>fst pos - fst goal\<bar> + \<bar>snd pos - snd goal\<bar>)"

definition is_direction_change :: "point \<Rightarrow> point \<Rightarrow> point \<Rightarrow> bool" where
  "is_direction_change prev current next_pos =
     ((fst current - fst prev, snd current - snd prev)
        \<noteq> (fst next_pos - fst current, snd next_pos - snd current))"

fun reconstruct :: "node \<Rightarrow> point list" where
  "reconstruct (Node f p g par) = (case par of None \<Rightarrow> [p] | Some n \<Rightarrow> p # reconstruct n)"

definition relax :: "point set \<Rightarrow> point \<Rightarrow> point set \<Rightarrow> node \<Rightarrow>
    node list \<times> (point \<Rightarrow> rat option) \<Rightarrow> point \<Rightarrow> node list \<times> (point \<Rightarrow> rat option)" where
  "relax obstacles goal closed_set current st neighbor_pos =
     (case st of (open_set, g_scores) \<Rightarrow>
        if neighbor_pos \<in> closed_set then (open_set, g_scores)
        else
          (let move_cost = 1 + (if neighbor_pos \<in> obstacles then 100 else 0)
                 + (case parent current of
                      None \<Rightarrow> 0
                    | Some par \<Rightarrow>
                        if is_direction_change (position par) (position current) neighbor_pos
                        then 1 / 2 else 0);
               tentative_g = g_score current + move_cost
           in if (case g_scores neighbor_pos of None \<Rightarrow> True | Some v \<Rightarrow> tentative_g < v)
              then (heappush node_lt open_set
                      (Node (tentative_g + heuristic neighbor_pos goal) neighbor_pos tentative_g
                         (Some current)),
                    g_scores(neighbor_pos \<mapsto> tentative_g))
              else (open_set, g_scores)))"

partial_function (option) astar_loop ::
  "point set \<Rightarrow> point \<Rightarrow> point \<Rightarrow> node list \<Rightarrow> point set \<Rightarrow> (point \<Rightarrow> rat option) \<Rightarrow> point list option" where
  "astar_loop obstacles start goal open_set closed_set g_scores =
     (if open_set = [] then Some [start, (fst goal, snd start), goal]
      else
        (let popped = heappop node_lt open_set; current = fst popped; open1 = snd popped in
         if position current = goal then Some (rev (reconstruct current))
         else if position current \<in> closed_set
           then astar_loop obstacles start goal open1 closed_set g_scores
         else
           (let closed1 = insert (position current) closed_set;
                st = foldl (relax obstacles goal closed1 current) (open1, g_scores)
                       (get_neighbors (position current))
            in astar_loop obstacles start goal (fst st) closed1 (snd st))))"

definition astar :: "point set \<Rightarrow> point \<Rightarrow> point \<Rightarrow> point list option" where
  "astar obstacles start goal =
     (if start = goal then Some [start]
      else astar_loop obstacles start goal
             (heappush node_lt [] (Node (heuristic start goal) start 0 None))
             {} [start \<mapsto> 0])"


subsection \<open>Path post-processing\<close>

definition is_collinear :: "point \<Rightarrow> point \<Rightarrow> point \<Rightarrow> bool" where
  "is_collinear p1 p2 p3 =
     ((fst p1 = fst p2 \<and> fst p2 = fst p3) \<or> (snd p1 = snd p2 \<and> snd p2 = snd p3))"

fun simplify_loop :: "point \<Rightarrow> point list \<Rightarrow> point list" where
  "simplify_loop prev (cur # nxt # rest) =
     (if \<not> is_collinear prev cur nxt then cur # simplify_loop cur (nxt # rest)
      else simplify_loop prev (nxt # rest))"
| "simplify_loop prev rest = rest"

definition simplify_path :: "point list \<Rightarrow> point list" where
  "simplify_path path =
     (if length path \<le> 2 then path else hd path # simplify_loop (hd path) (tl path))"

definition trunc_div :: "int \<Rightarrow> int \<Rightarrow> int" where
  "trunc_div a b = sgn a * sgn b * (\<bar>a\<bar> div \<bar>b\<bar>)"

definition to_grid :: "int \<Rightarrow> point \<Rightarrow> point" where
  "to_grid grid_size pos = (trunc_div (fst pos) grid_size, trunc_div (snd pos) grid_size)"

definition from_grid :: "int \<Rightarrow> point \<Rightarrow> point" where
  "from_grid grid_size pos = (fst pos * grid_size, snd pos * grid_size)"

definition manhattan_distance :: "point \<Rightarrow> point \<Rightarrow> int" where
  "manhattan_distance p1 p2 = \<bar>fst p1 - fst p2\<bar> + \<bar>snd p1 - snd p2\<bar>"

fun merge_loop :: "point list \<Rightarrow> point set \<Rightarrow> point list" where
  "merge_loop [] seen = []"
| "merge_loop (p # ps) seen =
     (if p \<notin> seen then p # merge_loop ps (insert p seen) else merge_loop ps seen)"

definition merge_paths :: "point list \<Rightarrow> point list" where
  "merge_paths paths = (if paths = [] then [] else merge_loop paths {})"

definition route_two_pins :: "int \<Rightarrow> point set \<Rightarrow> point \<Rightarrow> point \<Rightarrow> (py_error + point list) option" where
  "route_two_pins grid_size obstacles start goal_pin =
     (if grid_size = 0 then Some (Inl ZeroDivisionError)
      else
        (let start_grid = to_grid grid_size start; end_grid = to_grid grid_size goal_pin in
         case astar obstacles start_grid end_grid of
           None \<Rightarrow> None
         | Some grid_path \<Rightarrow>
             Some (Inr (if grid_path = [] then [start, (fst goal_pin, snd start), goal_pin]
                        else map (from_grid grid_size) (simplify_path grid_path)))))"

subsection \<open>Minimum spanning tree\<close>

definition tuple_lt :: "int \<times> nat \<times> nat \<Rightarrow> int \<times> nat \<times> nat \<Rightarrow> bool" where
  "tuple_lt a b =
     (case a of (d, i, j) \<Rightarrow> case b of (d', i', j') \<Rightarrow>
        d < d' \<or> (d = d' \<and> (i < i' \<or> (i = i' \<and> j < j'))))"

definition push_edges :: "point list \<Rightarrow> nat list \<Rightarrow> nat \<Rightarrow> (int \<times> nat \<times> nat) list \<Rightarrow> (int \<times> nat \<times> nat) list" where
  "push_edges pts visited j candidates =
     foldl (\<lambda>c k. if k \<notin> set visited
                   then heappush tuple_lt c (manhattan_distance (pts ! j) (pts ! k), j, k)
                   else c)
       candidates [0..<length pts]"

lemma length_push_edges: "length candidates \<le> length (push_edges pts visited j candidates)"
proof -
  have "length c \<le> length (foldl (\<lambda>c k. if k \<notin> set visited
                   then heappush tuple_lt c (manhattan_distance (pts ! j) (pts ! k), j, k)
                   else c) c ks)" for c ks
  proof (induction ks arbitrary: c)
    case Nil
    then show ?case by simp
  next
    case (Cons k ks)
    show ?case
    proof (cases "k \<in> set visited")
      case True
      then show ?thesis using Cons [of c] by simp
    next
      case False
      then show ?thesis
        using Cons [of "heappush tuple_lt c (manhattan_distance (pts ! j) (pts ! k), j, k)"]
        by simp
    qed
  qed
  then show ?thesis by (simp add: push_edges_def)
qed

function mst_loop :: "point list \<Rightarrow> nat list \<Rightarrow> (nat \<times> nat) list \<Rightarrow> (int \<times> nat \<times> nat) list \<Rightarrow> (nat \<times> nat) list" where
  "mst_loop pts visited edges candidates =
     (if length visited < length pts \<and> candidates \<noteq> [] then
        (let popped = heappop tuple_lt candidates;
             i = fst (snd (fst popped)); j = snd (snd (fst popped));
             candidates1 = snd popped
         in if j \<in> set visited then mst_loop pts visited edges candidates1
            else mst_loop pts (visited @ [j]) (edges @ [(i, j)])
                   (push_edges pts (visited @ [j]) j candidates1))
      else edges)"
  by pat_completeness auto
termination
  by (relation "measures [\<lambda>(pts, visited, edges, candidates). length pts - length visited,
                          \<lambda>(pts, visited, edges, candidates). length candidates]")
     (auto simp: Let_def intro: diff_less_mono2)

declare mst_loop.simps [simp del]

definition build_mst :: "point list \<Rightarrow> (nat \<times> nat) list" where
  "build_mst pts =
     (let n = length pts in
      if n \<le> 1 then []
      else mst_loop pts [0] []
             (foldl (\<lambda>c j. heappush tuple_lt c (manhattan_distance (pts ! 0) (pts ! j), 0, j))
                [] [1..<n]))"

fun route_edges :: "int \<Rightarrow> point set \<Rightarrow> point list \<Rightarrow> (nat \<times> nat) list \<Rightarrow> point list \<Rightarrow> (py_error + point list) option" where
  "route_edges grid_size obstacles pts [] all_paths = Some (Inr all_paths)"
| "route_edges grid_size obstacles pts ((i, j) # es) all_paths =
     (case route_two_pins grid_size obstacles (pts ! i) (pts ! j) of
        None \<Rightarrow> None
      | Some (Inl e) \<Rightarrow> Some (Inl e)
      | Some (Inr path) \<Rightarrow> route_edges grid_size obstacles pts es (all_paths @ path))"

definition route_multi_pins :: "int \<Rightarrow> point set \<Rightarrow> point list \<Rightarrow> (py_error + point list) option" where
  "route_multi_pins grid_size obstacles pts =
     (if length pts \<le> 2 then
        (if pts = [] then Some (Inl IndexError)
         else route_two_pins grid_size obstacles (pts ! 0)
                (if length pts = 2 then pts ! 1 else pts ! 0))
      else
        (case route_edges grid_size obstacles pts (build_mst pts) [] of
           None \<Rightarrow> None
         | Some (Inl e) \<Rightarrow> Some (Inl e)
         | Some (Inr all_paths) \<Rightarrow> Some (Inr (merge_paths all_paths))))"

subsection \<open>Routing a net\<close>

text \<open>
  A placed component as the router reads it: its reference and its pins, each an id with
  an absolute position (integer pixel coordinates). A wire is the net's name and its
  path; \<^verbatim>\<open>route_net\<close> also appends the path's segments, in grid cells, to the
  router's \<^verbatim>\<open>wire_segments\<close>.
\<close>

record routed_component =
  rc_reference :: string
  rc_pins :: "(int \<times> point) list"

record wire =
  w_net_name :: string
  w_path :: "point list"
  crosses :: int

definition pin_position :: "routed_component list \<Rightarrow> string \<times> int \<Rightarrow> point list" where
  "pin_position comps pin_ref =
     (case pin_ref of (comp_ref, pin_id) \<Rightarrow>
        case find (\<lambda>c. rc_reference c = comp_ref) comps of
          None \<Rightarrow> []
        | Some c \<Rightarrow> (case map_of (rc_pins c) pin_id of None \<Rightarrow> [] | Some pos \<Rightarrow> [pos]))"

definition route_net ::
  "int \<Rightarrow> point set \<Rightarrow> (point \<times> point) list \<Rightarrow> net \<Rightarrow> routed_component list \<Rightarrow>
     (py_error + wire \<times> (point \<times> point) list) option" where
  "route_net grid_size obstacles wire_segments n comps =
     (let pin_positions = concat (map (pin_position comps) (pins n)) in
      if length pin_positions < 2
        then Some (Inr (\<lparr>w_net_name = net_name n, w_path = [], crosses = 0\<rparr>, wire_segments))
      else
        (case (if length pin_positions = 2
               then route_two_pins grid_size obstacles (pin_positions ! 0) (pin_positions ! 1)
               else route_multi_pins grid_size obstacles pin_positions) of
           None \<Rightarrow> None
         | Some (Inl e) \<Rightarrow> Some (Inl e)
         | Some (Inr path) \<Rightarrow>
             Some (Inr (\<lparr>w_net_name = net_name n, w_path = path, crosses = 0\<rparr>,
                        wire_segments @
                          map (\<lambda>i. (to_grid grid_size (path ! i), to_grid grid_size (path ! (i + 1))))
                            [0..<length path - 1]))))"

subsection \<open>The Manhattan-polyline invariant\<close>

definition axis_step :: "point \<Rightarrow> point \<Rightarrow> bool" where
  "axis_step p q = ((fst p = fst q) \<noteq> (snd p = snd q))"

fun manhattan_polyline :: "point list \<Rightarrow> bool" where
  "manhattan_polyline (a # b # c # r) =
     (axis_step a b \<and> \<not> is_collinear a b c \<and> manhattan_polyline (b # c # r))"
| "manhattan_polyline [a, b] = axis_step a b"
| "manhattan_polyline r = True"

section \<open>The heap invariant\<close>

text \<open>
  A list is a heap for a key when no element has a smaller key than its parent in the
  implicit binary tree. \<^verbatim>\<open>heappush\<close> and \<^verbatim>\<open>heappop\<close> keep the invariant and the
  elements, and \<^verbatim>\<open>heappop\<close> returns an element of least key.
\<close>

definition by_key :: "('a \<Rightarrow> 'k::linorder) \<Rightarrow> 'a \<Rightarrow> 'a \<Rightarrow> bool" where
  "by_key key a b = (key a < key b)"

definition heap_inv :: "('a \<Rightarrow> 'k::linorder) \<Rightarrow> 'a list \<Rightarrow> bool" where
  "heap_inv key h = (\<forall>i. 0 < i \<and> i < length h \<longrightarrow> key (h ! ((i - 1) div 2)) \<le> key (h ! i))"

definition hole_inv :: "('a \<Rightarrow> 'k::linorder) \<Rightarrow> 'a list \<Rightarrow> nat \<Rightarrow> 'a \<Rightarrow> bool" where
  "hole_inv key h pos x =
     (pos < length h \<and>
      (\<forall>i. 0 < i \<and> i < length h \<and> i \<noteq> pos \<and> (i - 1) div 2 \<noteq> pos \<longrightarrow>
           key (h ! ((i - 1) div 2)) \<le> key (h ! i)) \<and>
      (\<forall>c. 0 < c \<and> c < length h \<and> (c - 1) div 2 = pos \<longrightarrow> key x \<le> key (h ! c)) \<and>
      (\<forall>c. 0 < pos \<and> 0 < c \<and> c < length h \<and> (c - 1) div 2 = pos \<longrightarrow>
           key (h ! ((pos - 1) div 2)) \<le> key (h ! c)))"

lemma parent_less: "0 < i \<Longrightarrow> (i - 1) div 2 < (i::nat)"
  by (simp add: div_less_dividend less_Suc_eq_le div_le_dividend le_imp_less_Suc
      flip: less_Suc_eq_le)

lemma child_cases: "0 < c \<Longrightarrow> (c - 1) div 2 = pos \<Longrightarrow> c = 2 * pos + 1 \<or> c = 2 * pos + (2::nat)"
  by presburger

lemma mset_update_swap:
  "i < length h \<Longrightarrow> j < length h \<Longrightarrow> i \<noteq> j \<Longrightarrow>
   mset (h[i := h ! j, j := x]) = mset (h[i := x])"
  by (simp add: mset_update nth_list_update)

lemma siftdown_mset:
  "pos < length h \<Longrightarrow> mset (siftdown lt h x 0 pos) = mset (h[pos := x])"
proof (induction pos arbitrary: h rule: less_induct)
  case (less pos)
  show ?case
  proof (cases "0 < pos")
    case False
    then show ?thesis by (subst siftdown.simps) simp
  next
    case True
    let ?pp = "(pos - 1) div 2"
    have pp: "?pp < pos" using True by (rule parent_less)
    show ?thesis
    proof (cases "lt x (h ! ?pp)")
      case False
      then show ?thesis using True by (subst siftdown.simps) (simp add: Let_def)
    next
      case lt: True
      have "siftdown lt h x 0 pos = siftdown lt (h[pos := h ! ?pp]) x 0 ?pp"
        using True lt by (subst siftdown.simps) (simp add: Let_def)
      also have "mset \<dots> = mset (h[pos := h ! ?pp, ?pp := x])"
        using less.IH [OF pp, of "h[pos := h ! ?pp]"] pp less.prems by simp
      also have "\<dots> = mset (h[pos := x])"
        using pp less.prems by (intro mset_update_swap) auto
      finally show ?thesis .
    qed
  qed
qed

lemma siftdown_heap:
  "hole_inv key h pos x \<Longrightarrow> heap_inv key (siftdown (by_key key) h x 0 pos)"
proof (induction pos arbitrary: h rule: less_induct)
  case (less pos)
  note H = less.prems
  from H have len: "pos < length h" by (simp add: hole_inv_def)
  from H have a: "\<And>i. 0 < i \<Longrightarrow> i < length h \<Longrightarrow> i \<noteq> pos \<Longrightarrow> (i - 1) div 2 \<noteq> pos \<Longrightarrow>
           key (h ! ((i - 1) div 2)) \<le> key (h ! i)" by (simp add: hole_inv_def)
  from H have b: "\<And>c. 0 < c \<Longrightarrow> c < length h \<Longrightarrow> (c - 1) div 2 = pos \<Longrightarrow> key x \<le> key (h ! c)"
    by (simp add: hole_inv_def)
  from H have c: "\<And>c. 0 < pos \<Longrightarrow> 0 < c \<Longrightarrow> c < length h \<Longrightarrow> (c - 1) div 2 = pos \<Longrightarrow>
           key (h ! ((pos - 1) div 2)) \<le> key (h ! c)" by (simp add: hole_inv_def)
  let ?pp = "(pos - 1) div 2"
  have fill: "heap_inv key (h[pos := x])" if top: "0 < pos \<longrightarrow> key (h ! ?pp) \<le> key x"
    unfolding heap_inv_def
  proof (intro allI impI)
    fix i assume i: "0 < i \<and> i < length (h[pos := x])"
    then have i0: "0 < i" and il: "i < length h" by simp_all
    have ne: "(i - 1) div 2 \<noteq> i" using parent_less [OF i0] by simp
    show "key (h[pos := x] ! ((i - 1) div 2)) \<le> key (h[pos := x] ! i)"
    proof (cases "i = pos")
      case True
      then show ?thesis using top i0 il ne by (simp add: nth_list_update)
    next
      case False
      show ?thesis
      proof (cases "(i - 1) div 2 = pos")
        case True
        then show ?thesis using b [OF i0 il True] False len by (simp add: nth_list_update)
      next
        case np: False
        then show ?thesis using a [OF i0 il False np] False by (simp add: nth_list_update)
      qed
    qed
  qed
  show ?case
  proof (cases "0 < pos")
    case False
    then have "siftdown (by_key key) h x 0 pos = h[pos := x]"
      by (subst siftdown.simps) simp
    then show ?thesis using fill False by simp
  next
    case True
    have pp: "?pp < pos" using True by (rule parent_less)
    show ?thesis
    proof (cases "key x < key (h ! ?pp)")
      case False
      then have "siftdown (by_key key) h x 0 pos = h[pos := x]"
        using True by (subst siftdown.simps) (simp add: Let_def by_key_def)
      moreover from False have "0 < pos \<longrightarrow> key (h ! ?pp) \<le> key x"
        using linorder_not_less by blast
      ultimately show ?thesis using fill by simp
    next
      case lt: True
      let ?h' = "h[pos := h ! ?pp]"
      have eq: "siftdown (by_key key) h x 0 pos = siftdown (by_key key) ?h' x 0 ?pp"
        using True lt by (subst siftdown.simps) (simp add: Let_def by_key_def)
      have top: "0 < ?pp \<Longrightarrow> key (h ! ((?pp - 1) div 2)) \<le> key (h ! ?pp)"
      proof -
        assume p0: "0 < ?pp"
        have "(?pp - 1) div 2 < ?pp" using p0 by (rule parent_less)
        with pp have "(?pp - 1) div 2 \<noteq> pos" by simp
        with a [OF p0 _ _] pp len show ?thesis by simp
      qed
      have "hole_inv key ?h' ?pp x"
        unfolding hole_inv_def
      proof (intro conjI allI impI)
        show "?pp < length ?h'" using pp len by simp
      next
        fix i assume "0 < i \<and> i < length ?h' \<and> i \<noteq> ?pp \<and> (i - 1) div 2 \<noteq> ?pp"
        then have i0: "0 < i" and il: "i < length h" and ipp: "i \<noteq> ?pp" and pipp: "(i - 1) div 2 \<noteq> ?pp"
          by simp_all
        from pipp have ip: "i \<noteq> pos" by auto
        show "key (?h' ! ((i - 1) div 2)) \<le> key (?h' ! i)"
        proof (cases "(i - 1) div 2 = pos")
          case t: True
          then show ?thesis using c [OF True i0 il t] ip len by (simp add: nth_list_update)
        next
          case False
          then show ?thesis using a [OF i0 il ip False] ip by (simp add: nth_list_update)
        qed
      next
        fix ch assume "0 < ch \<and> ch < length ?h' \<and> (ch - 1) div 2 = ?pp"
        then have c0: "0 < ch" and cl: "ch < length h" and cp: "(ch - 1) div 2 = ?pp" by simp_all
        show "key x \<le> key (?h' ! ch)"
        proof (cases "ch = pos")
          case True
          then show ?thesis using lt len by simp
        next
          case False
          from pp cp have "(ch - 1) div 2 \<noteq> pos" by simp
          from a [OF c0 cl False this] lt cp False show ?thesis by (simp add: nth_list_update)
        qed
      next
        fix ch assume "0 < ?pp \<and> 0 < ch \<and> ch < length ?h' \<and> (ch - 1) div 2 = ?pp"
        then have p0: "0 < ?pp" and c0: "0 < ch" and cl: "ch < length h" and cp: "(ch - 1) div 2 = ?pp"
          by simp_all
        have "(?pp - 1) div 2 < ?pp" using p0 by (rule parent_less)
        with pp have ne: "(?pp - 1) div 2 \<noteq> pos" by simp
        have t: "key (h ! ((?pp - 1) div 2)) \<le> key (h ! ?pp)" using top [OF p0] .
        show "key (?h' ! ((?pp - 1) div 2)) \<le> key (?h' ! ch)"
        proof (cases "ch = pos")
          case True
          then show ?thesis using t ne len by (simp add: nth_list_update)
        next
          case False
          from pp cp have "(ch - 1) div 2 \<noteq> pos" by simp
          from a [OF c0 cl False this] t cp False ne show ?thesis by (simp add: nth_list_update)
        qed
      qed
      from less.IH [OF pp this] eq show ?thesis by simp
    qed
  qed
qed

lemma heap_root_min: "heap_inv key h \<Longrightarrow> i < length h \<Longrightarrow> key (h ! 0) \<le> key (h ! i)"
proof (induction i rule: less_induct)
  case (less i)
  show ?case
  proof (cases "i = 0")
    case True then show ?thesis by simp
  next
    case False
    then have i0: "0 < i" by simp
    have p: "(i - 1) div 2 < i" using i0 by (rule parent_less)
    have "key (h ! 0) \<le> key (h ! ((i - 1) div 2))"
      using less.IH [OF p less.prems(1)] p less.prems(2) by simp
    also have "\<dots> \<le> key (h ! i)" using less.prems i0 by (simp add: heap_inv_def)
    finally show ?thesis .
  qed
qed

lemma heappush_mset: "mset (heappush lt h x) = add_mset x (mset h)"
  by (simp add: heappush_def siftdown_mset)

lemma heappush_heap:
  assumes "heap_inv key h"
  shows "heap_inv key (heappush (by_key key) h x)"
proof -
  have "hole_inv key (h @ [x]) (length h) x"
    unfolding hole_inv_def
  proof (intro conjI allI impI)
    show "length h < length (h @ [x])" by simp
  next
    fix i assume "0 < i \<and> i < length (h @ [x]) \<and> i \<noteq> length h \<and> (i - 1) div 2 \<noteq> length h"
    then have i0: "0 < i" and il: "i < length h" by simp_all
    have "(i - 1) div 2 < i" using i0 by (rule parent_less)
    with il have "(i - 1) div 2 < length h" by simp
    then show "key ((h @ [x]) ! ((i - 1) div 2)) \<le> key ((h @ [x]) ! i)"
      using assms i0 il by (simp add: nth_append heap_inv_def)
  next
    fix c assume "0 < c \<and> c < length (h @ [x]) \<and> (c - 1) div 2 = length h"
    then have False using child_cases [of c "length h"] by auto
    then show "key x \<le> key ((h @ [x]) ! c)" ..
  next
    fix c assume "0 < length h \<and> 0 < c \<and> c < length (h @ [x]) \<and> (c - 1) div 2 = length h"
    then have False using child_cases [of c "length h"] by auto
    then show "key ((h @ [x]) ! ((length h - 1) div 2)) \<le> key ((h @ [x]) ! c)" ..
  qed
  then show ?thesis unfolding heappush_def by (rule siftdown_heap)
qed


definition loop_inv :: "('a \<Rightarrow> 'k::linorder) \<Rightarrow> 'a list \<Rightarrow> nat \<Rightarrow> bool" where
  "loop_inv key h pos =
     (pos < length h \<and>
      (\<forall>i. 0 < i \<and> i < length h \<and> i \<noteq> pos \<and> (i - 1) div 2 \<noteq> pos \<longrightarrow>
           key (h ! ((i - 1) div 2)) \<le> key (h ! i)) \<and>
      (\<forall>c. 0 < pos \<and> 0 < c \<and> c < length h \<and> (c - 1) div 2 = pos \<longrightarrow>
           key (h ! ((pos - 1) div 2)) \<le> key (h ! c)))"

lemma siftup_loop_inv:
  "loop_inv key h pos \<Longrightarrow>
   loop_inv key (fst (siftup_loop (by_key key) h pos)) (snd (siftup_loop (by_key key) h pos))
   \<and> length h \<le> 2 * snd (siftup_loop (by_key key) h pos) + 1
   \<and> (\<forall>y. mset ((fst (siftup_loop (by_key key) h pos))[snd (siftup_loop (by_key key) h pos) := y])
          = mset (h[pos := y]))"
proof (induction "length h - pos" arbitrary: h pos rule: less_induct)
  case less
  note L = less.prems
  from L have len: "pos < length h" by (simp add: loop_inv_def)
  from L have a: "\<And>i. 0 < i \<Longrightarrow> i < length h \<Longrightarrow> i \<noteq> pos \<Longrightarrow> (i - 1) div 2 \<noteq> pos \<Longrightarrow>
           key (h ! ((i - 1) div 2)) \<le> key (h ! i)" by (simp add: loop_inv_def)
  from L have c: "\<And>c. 0 < pos \<Longrightarrow> 0 < c \<Longrightarrow> c < length h \<Longrightarrow> (c - 1) div 2 = pos \<Longrightarrow>
           key (h ! ((pos - 1) div 2)) \<le> key (h ! c)" by (simp add: loop_inv_def)
  show ?case
  proof (cases "2 * pos + 1 < length h")
    case False
    then have "siftup_loop (by_key key) h pos = (h, pos)"
      by (subst siftup_loop.simps) (simp add: Let_def)
    then show ?thesis using L False by simp
  next
    case True
    let ?l = "2 * pos + 1" and ?r = "2 * pos + 2"
    define ch where "ch = (if ?r < length h \<and> \<not> key (h ! ?l) < key (h ! ?r) then ?r else ?l)"
    have chl: "ch < length h" using True by (simp add: ch_def)
    have chp: "(ch - 1) div 2 = pos" by (simp add: ch_def)
    have ch0: "0 < ch" by (simp add: ch_def)
    have chne: "ch \<noteq> pos" by (simp add: ch_def)
    have chgt: "pos < ch" by (simp add: ch_def)
    have small: "\<And>i. 0 < i \<Longrightarrow> i < length h \<Longrightarrow> (i - 1) div 2 = pos \<Longrightarrow> key (h ! ch) \<le> key (h ! i)"
    proof -
      fix i assume "0 < i" "i < length h" "(i - 1) div 2 = pos"
      then have "i = ?l \<or> i = ?r" using child_cases [of i pos] by simp
      then show "key (h ! ch) \<le> key (h ! i)"
        using \<open>i < length h\<close> by (auto simp: ch_def not_less)
    qed
    let ?h' = "h[pos := h ! ch]"
    have eq: "siftup_loop (by_key key) h pos = siftup_loop (by_key key) ?h' ch"
      using True by (subst siftup_loop.simps) (simp add: Let_def ch_def by_key_def)
    have inv': "loop_inv key ?h' ch"
      unfolding loop_inv_def
    proof (intro conjI allI impI)
      show "ch < length ?h'" using chl by simp
    next
      fix i assume "0 < i \<and> i < length ?h' \<and> i \<noteq> ch \<and> (i - 1) div 2 \<noteq> ch"
      then have i0: "0 < i" and il: "i < length h" and ic: "i \<noteq> ch" and pic: "(i - 1) div 2 \<noteq> ch"
        by simp_all
      show "key (?h' ! ((i - 1) div 2)) \<le> key (?h' ! i)"
      proof (cases "i = pos")
        case True
        have "(i - 1) div 2 < i" using i0 by (rule parent_less)
        then have "(i - 1) div 2 \<noteq> pos" using True by simp
        moreover have "key (h ! ((pos - 1) div 2)) \<le> key (h ! ch)"
          using c [OF _ ch0 chl chp] i0 True by simp
        ultimately show ?thesis using True len by (simp add: nth_list_update)
      next
        case ip: False
        show ?thesis
        proof (cases "(i - 1) div 2 = pos")
          case True
          then show ?thesis using small [OF i0 il True] ip len by (simp add: nth_list_update)
        next
          case False
          then show ?thesis using a [OF i0 il ip False] ip by (simp add: nth_list_update)
        qed
      qed
    next
      fix d assume "0 < ch \<and> 0 < d \<and> d < length ?h' \<and> (d - 1) div 2 = ch"
      then have d0: "0 < d" and dl: "d < length h" and dp: "(d - 1) div 2 = ch" by simp_all
      have "ch < d" using parent_less [OF d0] dp by simp
      with chgt have dne: "d \<noteq> pos" by simp
      from dp chne have "(d - 1) div 2 \<noteq> pos" by simp
      from a [OF d0 dl dne this] dp dne chp len
      show "key (?h' ! ((ch - 1) div 2)) \<le> key (?h' ! d)" by (simp add: nth_list_update)
    qed
    have m: "length ?h' - ch < length h - pos" using chgt chl by simp
    from less.hyps [OF m inv'] have
      r1: "loop_inv key (fst (siftup_loop (by_key key) ?h' ch)) (snd (siftup_loop (by_key key) ?h' ch))"
      and r2: "length ?h' \<le> 2 * snd (siftup_loop (by_key key) ?h' ch) + 1"
      and r3: "\<And>y. mset ((fst (siftup_loop (by_key key) ?h' ch))[snd (siftup_loop (by_key key) ?h' ch) := y])
          = mset (?h'[ch := y])"
      by simp_all
    have "mset (?h'[ch := y]) = mset (h[pos := y])" for y
      using len chl chne by (intro mset_update_swap) auto
    with r1 r2 r3 show ?thesis unfolding eq by simp
  qed
qed

lemma siftup_correct:
  assumes "loop_inv key h 0" "h \<noteq> []"
  shows "heap_inv key (siftup (by_key key) h 0) \<and> mset (siftup (by_key key) h 0) = mset h"
proof -
  let ?r = "siftup_loop (by_key key) h 0"
  from siftup_loop_inv [OF assms(1)] have
    r1: "loop_inv key (fst ?r) (snd ?r)" and r2: "length h \<le> 2 * snd ?r + 1"
    and r3: "\<And>y. mset ((fst ?r)[snd ?r := y]) = mset (h[0 := y])"
    by simp_all
  have len: "length (fst ?r) = length h" by simp
  have hole: "hole_inv key (fst ?r) (snd ?r) (h ! 0)"
    unfolding hole_inv_def
  proof (intro conjI allI impI)
    show "snd ?r < length (fst ?r)" using r1 by (simp add: loop_inv_def)
  next
    fix i assume "0 < i \<and> i < length (fst ?r) \<and> i \<noteq> snd ?r \<and> (i - 1) div 2 \<noteq> snd ?r"
    then show "key (fst ?r ! ((i - 1) div 2)) \<le> key (fst ?r ! i)"
      using r1 unfolding loop_inv_def by blast
  next
    fix c assume "0 < c \<and> c < length (fst ?r) \<and> (c - 1) div 2 = snd ?r"
    then have False using child_cases [of c "snd ?r"] r2 len by auto
    then show "key (h ! 0) \<le> key (fst ?r ! c)" ..
  next
    fix c assume "0 < snd ?r \<and> 0 < c \<and> c < length (fst ?r) \<and> (c - 1) div 2 = snd ?r"
    then have False using child_cases [of c "snd ?r"] r2 len by auto
    then show "key (fst ?r ! ((snd ?r - 1) div 2)) \<le> key (fst ?r ! c)" ..
  qed
  have s: "siftup (by_key key) h 0 = siftdown (by_key key) (fst ?r) (h ! 0) 0 (snd ?r)"
    by (simp add: siftup_def Let_def split_def)
  have "snd ?r < length (fst ?r)" using r1 by (simp add: loop_inv_def)
  then have "mset (siftup (by_key key) h 0) = mset ((fst ?r)[snd ?r := h ! 0])"
    unfolding s by (rule siftdown_mset)
  also have "\<dots> = mset h" using r3 [of "h ! 0"] by simp
  finally show ?thesis using siftdown_heap [OF hole] s by simp
qed

lemma heappop_correct:
  assumes "heap_inv key h" "h \<noteq> []"
  shows "heap_inv key (snd (heappop (by_key key) h))
     \<and> mset h = add_mset (fst (heappop (by_key key) h)) (mset (snd (heappop (by_key key) h)))
     \<and> (\<forall>y \<in> set h. key (fst (heappop (by_key key) h)) \<le> key y)"
proof (cases "butlast h = []")
  case True
  then have h: "h = [last h]" using assms(2) by (metis append_butlast_last_id append_Nil)
  have "heappop (by_key key) h = (last h, [])" using True by (simp add: heappop_def)
  moreover have "set h = {last h}" using h by (metis list.set(1) list.simps(15))
  moreover have "mset h = {#last h#}" using h by (metis mset.simps(1) mset.simps(2))
  ultimately show ?thesis by (simp add: heap_inv_def)
next
  case False
  let ?b = "butlast h" and ?l = "last h"
  let ?h' = "?b[0 := ?l]"
  have hb: "h = ?b @ [?l]" using assms(2) by simp
  have pop: "heappop (by_key key) h = (?b ! 0, siftup (by_key key) ?h' 0)"
    using False by (simp add: heappop_def Let_def)
  have lb: "length ?b = length h - 1" by simp
  have nb: "\<And>i. i < length ?b \<Longrightarrow> ?b ! i = h ! i" by (simp add: nth_butlast)
  have b0: "0 < length ?b" using False by (simp del: length_butlast)
  have inv: "loop_inv key ?h' 0"
    unfolding loop_inv_def
  proof (intro conjI allI impI)
    show "0 < length ?h'" using b0 by simp
  next
    fix i assume "0 < i \<and> i < length ?h' \<and> i \<noteq> 0 \<and> (i - 1) div 2 \<noteq> 0"
    then have i0: "0 < i" and il: "i < length ?b" and p0: "(i - 1) div 2 \<noteq> 0" by simp_all
    have pl: "(i - 1) div 2 < length ?b" using parent_less [OF i0] il by simp
    have "key (h ! ((i - 1) div 2)) \<le> key (h ! i)"
      using assms(1) i0 il lb by (simp add: heap_inv_def)
    then show "key (?h' ! ((i - 1) div 2)) \<le> key (?h' ! i)"
      using i0 p0 nb [OF il] nb [OF pl] by (simp add: nth_list_update)
  next
    fix c assume "0 < (0::nat) \<and> 0 < c \<and> c < length ?h' \<and> (c - 1) div 2 = 0"
    then show "key (?h' ! ((0 - 1) div 2)) \<le> key (?h' ! c)" by simp
  qed
  have ne: "?h' \<noteq> []" using False by simp
  from siftup_correct [OF inv ne]
  have hi: "heap_inv key (siftup (by_key key) ?h' 0)"
    and ms: "mset (siftup (by_key key) ?h' 0) = mset ?h'" by simp_all
  have "mset ?h' = add_mset ?l (mset ?b - {#?b ! 0#})" using b0 by (simp add: mset_update)
  moreover have "?b ! 0 \<in># mset ?b" using b0 by (metis nth_mem_mset)
  ultimately have "add_mset (?b ! 0) (mset ?h') = add_mset ?l (mset ?b)"
    by (simp add: insert_DiffM)
  also have "\<dots> = mset h" by (subst (3) hb) simp
  finally have m: "mset h = add_mset (?b ! 0) (mset (siftup (by_key key) ?h' 0))"
    using ms by simp
  have root: "?b ! 0 = h ! 0" using nb [OF b0] .
  have "\<forall>y \<in> set h. key (h ! 0) \<le> key y"
    using heap_root_min [OF assms(1)] by (metis in_set_conv_nth)
  with hi m root show ?thesis unfolding pop by simp
qed

lemma node_lt_by_key: "node_lt = by_key f_score"
  by (intro ext) (simp add: node_lt_def by_key_def)

section \<open>Paths of the A* search\<close>

text \<open>
  Every node of the open set carries, through its parent links, a path that visits no
  point twice and whose points after the node's own are closed: a neighbour is only pushed
  when it is not closed, and its parent has just been closed.
\<close>

definition path_inv :: "point set \<Rightarrow> node \<Rightarrow> bool" where
  "path_inv cl n = (distinct (reconstruct n) \<and> set (tl (reconstruct n)) \<subseteq> cl)"

lemma reconstruct_hd: "reconstruct n = position n # tl (reconstruct n)"
  by (cases n) (simp split: option.split)

lemma path_inv_mono: "path_inv cl n \<Longrightarrow> cl \<subseteq> cl' \<Longrightarrow> path_inv cl' n"
  by (auto simp: path_inv_def)

lemma path_inv_child:
  assumes "path_inv cl cur" "nb \<notin> insert (position cur) cl"
  shows "path_inv (insert (position cur) cl) (Node f nb g (Some cur))"
proof -
  have "set (reconstruct cur) \<subseteq> insert (position cur) cl"
    using assms(1) by (subst reconstruct_hd) (auto simp: path_inv_def)
  with assms show ?thesis by (auto simp: path_inv_def)
qed

definition open_inv :: "point set \<Rightarrow> node list \<Rightarrow> bool" where
  "open_inv cl op = (heap_inv f_score op \<and> list_all (path_inv cl) op)"

lemma set_heappush: "set (heappush lt h x) = insert x (set h)"
  using heappush_mset [of lt h x] by (metis set_mset_add_mset_insert set_mset_mset)

lemma relax_open_inv:
  assumes "open_inv cl1 op" "path_inv cl cur" "cl1 = insert (position cur) cl"
  shows "open_inv cl1 (fst (relax obstacles goal cl1 cur (op, g) nb))"
proof (cases "fst (relax obstacles goal cl1 cur (op, g) nb) = op")
  case True
  then show ?thesis using assms(1) by simp
next
  case False
  then obtain f tg where nb: "nb \<notin> cl1"
    and r: "fst (relax obstacles goal cl1 cur (op, g) nb) = heappush node_lt op (Node f nb tg (Some cur))"
    by (auto simp: relax_def Let_def split: if_splits)
  have "path_inv cl1 (Node f nb tg (Some cur))"
    using path_inv_child [OF assms(2)] nb assms(3) by simp
  then show ?thesis using assms(1) unfolding r open_inv_def
    by (simp add: node_lt_by_key heappush_heap list_all_iff set_heappush)
qed

lemma foldl_relax_open_inv:
  assumes "path_inv cl cur" "cl1 = insert (position cur) cl"
  shows "open_inv cl1 (fst st) \<Longrightarrow>
    open_inv cl1 (fst (foldl (relax obstacles goal cl1 cur) st nbs))"
proof (induction nbs arbitrary: st)
  case Nil
  then show ?case by simp
next
  case (Cons nb nbs)
  obtain op g where st: "st = (op, g)" by (cases st)
  from Cons.prems st have "open_inv cl1 (fst (relax obstacles goal cl1 cur st nb))"
    using relax_open_inv [OF _ assms] by simp
  from Cons.IH [OF this] show ?case by simp
qed

lemma heappop_open_inv:
  assumes "open_inv cl op" "op \<noteq> []"
  shows "path_inv cl (fst (heappop node_lt op)) \<and> open_inv cl (snd (heappop node_lt op))"
proof -
  from assms have h: "heap_inv f_score op" by (simp add: open_inv_def)
  from heappop_correct [OF h assms(2)]
  have hi: "heap_inv f_score (snd (heappop node_lt op))"
    and ms: "mset op = add_mset (fst (heappop node_lt op)) (mset (snd (heappop node_lt op)))"
    by (simp_all add: node_lt_by_key)
  from ms have "set op = insert (fst (heappop node_lt op)) (set (snd (heappop node_lt op)))"
    by (metis set_mset_add_mset_insert set_mset_mset)
  with assms(1) hi show ?thesis by (auto simp: open_inv_def list_all_iff)
qed

lemma astar_loop_paths_aux:
  assumes "astar_loop obstacles start goal op cl g = Some p"
  shows "open_inv cl op \<longrightarrow> distinct p \<or> length p \<le> 3"
  using assms
proof (induction rule: astar_loop.raw_induct [rotated 1, consumes 1, case_names step])
  case (step astar_loop' obstacles start goal op cl g p)
  note IH = step(1) and body = step(2)
  show ?case
  proof
    assume oi: "open_inv cl op"
    show "distinct p \<or> length p \<le> 3"
    proof (cases "op = []")
      case True
      with body show ?thesis by auto
    next
      case False
      let ?cur = "fst (heappop node_lt op)" and ?op1 = "snd (heappop node_lt op)"
      from heappop_open_inv [OF oi False]
      have pc: "path_inv cl ?cur" and o1: "open_inv cl ?op1" by simp_all
      show ?thesis
      proof (cases "position ?cur = goal")
        case True
        with body False have "p = rev (reconstruct ?cur)" by (simp add: Let_def)
        with pc show ?thesis by (simp add: path_inv_def)
      next
        case ng: False
        show ?thesis
        proof (cases "position ?cur \<in> cl")
          case True
          with body False ng have "astar_loop' obstacles start goal ?op1 cl g = Some p"
            by (simp add: Let_def)
          from IH [OF this] o1 show ?thesis by blast
        next
          case nc: False
          let ?c1 = "insert (position ?cur) cl"
          let ?st = "foldl (relax obstacles goal ?c1 ?cur) (?op1, g) (get_neighbors (position ?cur))"
          from body False ng nc have r: "astar_loop' obstacles start goal (fst ?st) ?c1 (snd ?st) = Some p"
            by (simp add: Let_def)
          have "open_inv ?c1 ?op1" using o1
            by (auto simp: open_inv_def list_all_iff intro: path_inv_mono)
          then have "open_inv ?c1 (fst ?st)"
            using foldl_relax_open_inv [OF pc refl, of "(?op1, g)"] by simp
          with IH [OF r] show ?thesis by blast
        qed
      qed
    qed
  qed
qed

lemma astar_loop_paths:
  "astar_loop obstacles start goal op cl g = Some p \<Longrightarrow> open_inv cl op \<Longrightarrow>
   distinct p \<or> length p \<le> 3"
  using astar_loop_paths_aux by blast

lemma astar_paths: "astar obstacles start goal = Some p \<Longrightarrow> distinct p \<or> length p \<le> 3"
proof (cases "start = goal")
  case True
  assume "astar obstacles start goal = Some p"
  with True show ?thesis by (auto simp: astar_def)
next
  case False
  assume a: "astar obstacles start goal = Some p"
  let ?n = "Node (heuristic start goal) start 0 None"
  have "heap_inv f_score (heappush node_lt [] ?n)"
    unfolding node_lt_by_key by (rule heappush_heap) (simp add: heap_inv_def)
  moreover have "set (heappush node_lt [] ?n) = {?n}" by (simp add: set_heappush)
  moreover have "path_inv {} ?n" by (simp add: path_inv_def)
  ultimately have "open_inv {} (heappush node_lt [] ?n)"
    by (simp add: open_inv_def list_all_iff)
  with a False show ?thesis using astar_loop_paths by (simp add: astar_def)
qed

section \<open>Path simplification\<close>

fun zigzag :: "point \<Rightarrow> point list \<Rightarrow> bool" where
  "zigzag prev (a # b # r) = (\<not> is_collinear prev a b \<and> zigzag a (b # r))"
| "zigzag prev r = True"

lemma simplify_loop_fixed: "zigzag prev q \<Longrightarrow> simplify_loop prev q = q"
  by (induction prev q rule: simplify_loop.induct) auto

lemma simplify_loop_subset: "set (simplify_loop prev xs) \<subseteq> set xs"
  by (induction prev xs rule: simplify_loop.induct) auto

lemma simplify_loop_nonempty: "xs \<noteq> [] \<Longrightarrow> simplify_loop prev xs \<noteq> []"
  by (induction prev xs rule: simplify_loop.induct) auto

lemma simplify_loop_hd:
  "distinct (cur # n # rest) \<Longrightarrow>
   hd (simplify_loop cur (n # rest)) = n
   \<or> (fst cur = fst n \<and> fst cur = fst (hd (simplify_loop cur (n # rest))))
   \<or> (snd cur = snd n \<and> snd cur = snd (hd (simplify_loop cur (n # rest))))"
proof (induction rest arbitrary: n)
  case Nil
  then show ?case by simp
next
  case (Cons m rest)
  show ?case
  proof (cases "is_collinear cur n m")
    case False
    then show ?thesis by simp
  next
    case True
    from Cons.prems have d: "distinct (cur # m # rest)" by simp
    from Cons.prems have ne: "cur \<noteq> m" "cur \<noteq> n" by auto
    have e: "simplify_loop cur (n # m # rest) = simplify_loop cur (m # rest)"
      using True by simp
    from Cons.IH [OF d] True ne show ?thesis
      unfolding e by (auto simp: is_collinear_def prod_eq_iff)
  qed
qed

lemma simplify_loop_zigzag: "distinct (prev # xs) \<Longrightarrow> zigzag prev (simplify_loop prev xs)"
proof (induction prev xs rule: simplify_loop.induct)
  case (1 prev cur nxt rest)
  show ?case
  proof (cases "is_collinear prev cur nxt")
    case True
    with 1 show ?thesis by simp
  next
    case False
    let ?q = "simplify_loop cur (nxt # rest)"
    from 1 False have z: "zigzag cur ?q" by simp
    have ne: "?q \<noteq> []" by (rule simplify_loop_nonempty) simp
    then obtain b q' where q: "?q = b # q'" by (cases ?q) auto
    have "b \<in> set (nxt # rest)" using simplify_loop_subset [of cur "nxt # rest"] q by auto
    with "1.prems" have bne: "b \<noteq> cur" by auto
    from "1.prems" have "distinct (cur # nxt # rest)" by simp
    from simplify_loop_hd [OF this] q
    have "b = nxt \<or> (fst cur = fst nxt \<and> fst cur = fst b) \<or> (snd cur = snd nxt \<and> snd cur = snd b)"
      by simp
    with False bne have "\<not> is_collinear prev cur b"
      by (auto simp: is_collinear_def prod_eq_iff)
    with z q False show ?thesis by simp
  qed
qed simp_all

lemma length_simplify_loop: "length (simplify_loop prev xs) \<le> length xs"
  by (induction prev xs rule: simplify_loop.induct) auto

lemma simplify_loop_fixed_zigzag: "simplify_loop prev q = q \<Longrightarrow> zigzag prev q"
proof (induction prev q rule: simplify_loop.induct)
  case (1 prev cur nxt rest)
  show ?case
  proof (cases "is_collinear prev cur nxt")
    case True
    with "1.prems" have "simplify_loop prev (nxt # rest) = cur # nxt # rest" by simp
    moreover have "length (simplify_loop prev (nxt # rest)) \<le> length (nxt # rest)"
      by (rule length_simplify_loop)
    ultimately show ?thesis by simp
  next
    case False
    with 1 show ?thesis by simp
  qed
qed simp_all

lemma simplify_path_fixed_iff:
  "simplify_path q = q \<longleftrightarrow> length q \<le> 2 \<or> zigzag (hd q) (tl q)"
proof (cases "length q \<le> 2")
  case True
  then show ?thesis by (simp add: simplify_path_def)
next
  case False
  then obtain a xs where q: "q = a # xs" by (cases q) auto
  show ?thesis using False q simplify_loop_fixed [of a xs] simplify_loop_fixed_zigzag [of a xs]
    by (auto simp: simplify_path_def)
qed

lemma simplify_path_three: "length p \<le> 3 \<Longrightarrow> simplify_path (simplify_path p) = simplify_path p"
proof -
  assume l: "length p \<le> 3"
  show ?thesis
  proof (cases "length p \<le> 2")
    case True
    then show ?thesis by (simp add: simplify_path_def)
  next
    case False
    with l have "length p = 3" by simp
    then obtain a b c where "p = [a, b, c]"
      by (metis (no_types, lifting) length_0_conv length_Suc_conv numeral_3_eq_3)
    then show ?thesis by (simp add: simplify_path_def)
  qed
qed

lemma simplify_path_idem_distinct:
  assumes "distinct p"
  shows "simplify_path (simplify_path p) = simplify_path p"
proof (cases "length p \<le> 2")
  case True
  then show ?thesis by (simp add: simplify_path_def)
next
  case False
  then obtain a xs where p: "p = a # xs" by (cases p) auto
  let ?q = "simplify_loop a xs"
  have sp: "simplify_path p = a # ?q" using False p by (simp add: simplify_path_def)
  have "zigzag a ?q" using assms p simplify_loop_zigzag [of a xs] by simp
  then have "simplify_loop a ?q = ?q" by (rule simplify_loop_fixed)
  then show ?thesis unfolding sp by (simp add: simplify_path_def)
qed

lemma astar_simplify_idem:
  "astar obstacles start goal = Some p \<Longrightarrow> simplify_path (simplify_path p) = simplify_path p"
  using astar_paths simplify_path_idem_distinct simplify_path_three by blast

text \<open>
  C9 (as amended). Simplifying a simplified path changes nothing exactly when the
  simplified path has at most two points or no three consecutive collinear points. This
  is so for every path that visits no point twice, and for every path that the A* search
  returns.
\<close>

theorem simplify_path_idempotent:
  "(simplify_path (simplify_path p) = simplify_path p \<longleftrightarrow>
      length (simplify_path p) \<le> 2 \<or> zigzag (hd (simplify_path p)) (tl (simplify_path p)))
   \<and> (distinct p \<longrightarrow> simplify_path (simplify_path p) = simplify_path p)
   \<and> (astar obstacles start goal = Some p \<longrightarrow>
        simplify_path (simplify_path p) = simplify_path p)"
  using simplify_path_fixed_iff [of "simplify_path p"] simplify_path_idem_distinct [of p]
    astar_simplify_idem [of obstacles start goal p]
  by blast

lemma astar_two_one: "astar {} (0, 0) (2, 1) = Some [(0, 0), (1, 0), (2, 0), (2, 1)]"
  by (simp add: astar_def astar_loop.simps heappush_def heappop_def siftup_def Let_def
      heuristic_def node_lt_def get_neighbors_def relax_def is_direction_change_def
      siftdown.simps siftup_loop.simps)

theorem simplify_path_idempotent_witness:
  "astar {} (0, 0) (2, 1) = Some [(0, 0), (1, 0), (2, 0), (2, 1)]
   \<and> distinct [(0, 0), (1, 0), (2, 0), (2, 1 :: int) :: point]
   \<and> simplify_path (simplify_path [(0, 0), (1, 0), (2, 0), (2, 1)]) =
       simplify_path [(0, 0), (1, 0), (2, 0), (2, 1)]"
proof -
  have d: "distinct [(0, 0), (1, 0), (2, 0), (2, 1 :: int) :: point]" by simp
  with simplify_path_idempotent [of "[(0, 0), (1, 0), (2, 0), (2, 1)]" "{}" "(0, 0)" "(2, 1)"]
  have "simplify_path (simplify_path [(0, 0), (1, 0), (2, 0), (2, 1)]) =
       simplify_path [(0, 0), (1, 0), (2, 0), (2, 1)]"
    by blast
  with d astar_two_one show ?thesis by blast
qed

text \<open>
  On a path that comes back to a point the first pass can leave a point next to its own
  copy, which only the second pass removes: the claim for all paths fails.
\<close>

theorem simplify_path_not_idempotent_counterexample:
  "simplify_path [(0, 0), (1, 0), (1, 1), (1, 0)] = [(0, 0), (1, 0), (1, 0)]
   \<and> simplify_path (simplify_path [(0, 0), (1, 0), (1, 1), (1, 0)]) = [(0, 0), (1, 0)]"
  by (simp add: simplify_path_def is_collinear_def)

section \<open>Routing a three-pin net\<close>

definition three_pins :: "routed_component list" where
  "three_pins =
     [\<lparr>rc_reference = ''U1'', rc_pins = [(1, (0, 0))]\<rparr>,
      \<lparr>rc_reference = ''U2'', rc_pins = [(1, (10, 0))]\<rparr>,
      \<lparr>rc_reference = ''U3'', rc_pins = [(1, (0, 10))]\<rparr>]"

definition net3 :: net where
  "net3 = \<lparr>net_name = ''N1'', pins = [(''U1'', 1), (''U2'', 1), (''U3'', 1)]\<rparr>"

lemma build_mst_three: "build_mst [(0, 0), (10, 0), (0, 10)] = [(0, 1), (0, 2)]"
  by (simp add: build_mst_def Let_def manhattan_distance_def heappush_def heappop_def siftup_def
      tuple_lt_def push_edges_def upt_rec mst_loop.simps siftdown.simps siftup_loop.simps)

lemma route_multi_three:
  "route_multi_pins 10 {} [(0, 0), (10, 0), (0, 10)] = Some (Inr [(0, 0), (10, 0), (0, 10)])"
  by (simp add: route_multi_pins_def build_mst_three route_two_pins_def to_grid_def trunc_div_def
      from_grid_def merge_paths_def simplify_path_def
      astar_def astar_loop.simps heappush_def heappop_def siftup_def Let_def
      heuristic_def node_lt_def get_neighbors_def relax_def is_direction_change_def
      siftdown.simps siftup_loop.simps)

text \<open>
  C1. For the net joining the pins at (0, 0), (10, 0) and (0, 10) on an obstacle-free grid
  of cell size 10, the spanning tree has the edges 0-1 and 0-2; their two paths are
  concatenated and deduplicated into one waypoint list whose second segment goes from
  (10, 0) to (0, 10), changing both coordinates: the list is no Manhattan polyline.
\<close>

theorem route_net_three_pins_diagonal:
  "route_net 10 {} [] net3 three_pins =
     Some (Inr (\<lparr>w_net_name = ''N1'', w_path = [(0, 0), (10, 0), (0, 10)], crosses = 0\<rparr>,
                [((0, 0), (1, 0)), ((1, 0), (0, 1))]))
   \<and> \<not> manhattan_polyline [(0, 0), (10, 0), (0, 10)]"
  by (simp add: route_net_def net3_def three_pins_def pin_position_def route_multi_three
      to_grid_def trunc_div_def axis_step_def upt_rec)

end
